theory Spec2Isabelle
  imports Complex_Main "HOL-Library.Sublist" "HOL-Library.Log_Nat"
begin

section \<open>Data model\<close>

text \<open>
  The agent of \<^verbatim>\<open>src/index.ts\<close>: a message log and a call counter, two graph nodes
  (\<^verbatim>\<open>llmCall\<close>, \<^verbatim>\<open>toolNode\<close>), a conditional edge (\<^verbatim>\<open>shouldContinue\<close>) and three
  arithmetic tools kept in the object \<^verbatim>\<open>toolsByName\<close>.

  A JavaScript number is an IEEE 754 double: a finite double is the real number it
  denotes, and the two infinities and \<^verbatim>\<open>NaN\<close> are values of their own. The sign of
  zero is not modelled. A tool message holds the output of its tool as a number; the
  conversion of that output to text is not modelled.
\<close>

datatype json = JNull | JBool bool | JNumber real | JString string

datatype number = Num real | PosInfinity | NegInfinity | NaN

text \<open>
  The finite doubles are the reals \<open>m * 2 ^ e\<close> with an integer \<open>m\<close> of magnitude
  below \<open>2 ^ 53\<close> and \<open>- 1074 \<le> e \<le> 971\<close>. An arithmetic operation on finite doubles
  returns the exact result rounded to a nearest double, a tie going to the even
  significand; when the rounded magnitude reaches \<open>2 ^ 1024\<close> the result is an
  infinity. \<open>pow2 e\<close> is \<open>2\<close> to the power \<open>e\<close>, \<open>floor_log2 x\<close> the integer part
  of the binary logarithm of a positive \<open>x\<close>, and \<open>ulp_exponent x\<close> the exponent
  \<open>e\<close> of the doubles around \<open>x\<close>.
\<close>

definition pow2 :: "int \<Rightarrow> real" where
  "pow2 e = (if 0 \<le> e then 2 ^ nat e else 1 / 2 ^ nat (- e))"

definition floor_log2 :: "real \<Rightarrow> int" where
  "floor_log2 x = (if 1 \<le> x then bitlen \<lfloor>x\<rfloor> - 1 else - bitlen (\<lceil>1 / x\<rceil> - 1))"

definition ulp_exponent :: "real \<Rightarrow> int" where
  "ulp_exponent x = max (floor_log2 \<bar>x\<bar> - 52) (- 1074)"

definition round_double :: "real \<Rightarrow> number" where
  "round_double x =
     (if x = 0 then Num 0
      else
        let u = pow2 (ulp_exponent x);
            q = \<lfloor>x / u\<rfloor>;
            r = x / u - real_of_int q;
            n = (if r < 1 / 2 then q else if 1 / 2 < r then q + 1
                 else if even q then q else q + 1);
            y = real_of_int n * u
        in if 2 ^ 1024 \<le> \<bar>y\<bar> then (if 0 < x then PosInfinity else NegInfinity) else Num y)"

text \<open>
  \<^verbatim>\<open>x + y\<close> on numbers: \<^verbatim>\<open>NaN\<close> when an operand is \<^verbatim>\<open>NaN\<close> or the operands are
  opposite infinities, the infinity when one operand is infinite, and the rounded sum
  of two finite doubles.
\<close>

fun js_add :: "number \<Rightarrow> number \<Rightarrow> number" where
  "js_add NaN y = NaN"
| "js_add x NaN = NaN"
| "js_add PosInfinity NegInfinity = NaN"
| "js_add NegInfinity PosInfinity = NaN"
| "js_add PosInfinity y = PosInfinity"
| "js_add x PosInfinity = PosInfinity"
| "js_add NegInfinity y = NegInfinity"
| "js_add x NegInfinity = NegInfinity"
| "js_add (Num a) (Num b) = round_double (a + b)"

record toolcall =
  tc_name :: string
  tc_args :: "string \<rightharpoonup> json"
  tc_id :: string

record ai_message =
  ai_content :: string
  tool_calls :: "toolcall list option"

record tool_message =
  content :: number
  tool_call_id :: string

datatype message =
    SystemMessage string
  | HumanMessage string
  | AIMessage ai_message
  | ToolMessage tool_message

text \<open>
  Everything that the source throws: a call of a value that is not a function
  (\<^verbatim>\<open>TypeError\<close>), a tool input rejected by the tool's schema, a failure inside a tool
  handler, a failure of the model backend, and the failures of the graph executor.
\<close>

datatype error =
    TypeError
  | ToolInputParsingException
  | HandlerFailure string
  | BackendFailure string
  | UnknownNode string
  | InvalidDestination string
  | NoOutgoingEdge string
  | GraphBuildError string

text \<open>
  The state of \<^verbatim>\<open>MessagesState\<close> (lines 65-70): the log and the counter
  \<^verbatim>\<open>llmCalls\<close>, declared \<^verbatim>\<open>z.number()\<close>.
\<close>

record state =
  messages :: "message list"
  llmCalls :: number

text \<open>
  What a node returns: each field of the state may be present or absent
  (\<^verbatim>\<open>toolNode\<close> returns \<^verbatim>\<open>{ messages: result }\<close>, with no \<^verbatim>\<open>llmCalls\<close>).
\<close>

record partial_update =
  messages_upd :: "message list option"
  llmCalls_upd :: "number option"

text \<open>The constants \<^verbatim>\<open>START\<close> and \<^verbatim>\<open>END\<close> of the graph library are reserved node names.\<close>

definition START :: string where
  "START = ''__start__''"

definition END :: string where
  "END = ''__end__''"

text \<open>\<^verbatim>\<open>xs.at(-1)\<close>: the last element, \<^verbatim>\<open>undefined\<close> on the empty array.\<close>

definition at_last :: "'a list \<Rightarrow> 'a option" where
  "at_last xs = (if xs = [] then None else Some (last xs))"

section \<open>The conditional edge\<close>

text \<open>
  \<^verbatim>\<open>shouldContinue\<close> (lines 103-120): \<^verbatim>\<open>END\<close> when the last message is missing or is
  not an \<^verbatim>\<open>AIMessage\<close>; \<^verbatim>\<open>"toolNode"\<close> when \<^verbatim>\<open>tool_calls?.length\<close> is truthy, that is
  when \<^verbatim>\<open>tool_calls\<close> is present and not empty; \<^verbatim>\<open>END\<close> otherwise.
\<close>

definition shouldContinue :: "state \<Rightarrow> string" where
  "shouldContinue st =
     (case at_last (messages st) of
        None \<Rightarrow> END
      | Some lastMessage \<Rightarrow>
          (case lastMessage of
             AIMessage ai \<Rightarrow>
               (case tool_calls ai of
                  None \<Rightarrow> END
                | Some calls \<Rightarrow> if length calls \<noteq> 0 then ''toolNode'' else END)
           | _ \<Rightarrow> END))"

section \<open>The tools and their registry\<close>

text \<open>
  A tool as the dispatcher sees it: a name, a description and an \<^verbatim>\<open>invoke\<close> operation
  that either fails or answers with a tool message. \<^verbatim>\<open>invoke\<close> is a field, so that the
  dispatcher can be studied for any handler, also one that fails for a reason of its
  own.
\<close>

record tool =
  tool_name :: string
  tool_description :: string
  tool_invoke :: "toolcall \<Rightarrow> error + tool_message"

type_synonym 'a schema = "(string \<rightharpoonup> json) \<Rightarrow> 'a option"

text \<open>
  Modelled from the spec: the library function \<^verbatim>\<open>tool(fn, {name, description, schema})\<close>
  of \<^verbatim>\<open>@langchain/core/tools\<close> is not part of the repository. Following sections 3, 4.3
  and 6 of the specification, the \<^verbatim>\<open>invoke\<close> operation of the object it builds
  validates the arguments of the call against the schema before it runs the function,
  and answers with one tool message that carries the id of the call and the output of
  the function. Arguments that the schema rejects make \<^verbatim>\<open>invoke\<close> fail.
\<close>

definition tool :: "('a \<Rightarrow> number) \<Rightarrow> string \<Rightarrow> string \<Rightarrow> 'a schema \<Rightarrow> tool" where
  "tool func nm descr schema =
     \<lparr>tool_name = nm, tool_description = descr,
      tool_invoke = (\<lambda>toolCall.
        case schema (tc_args toolCall) of
          None \<Rightarrow> Inl ToolInputParsingException
        | Some parsed \<Rightarrow> Inr \<lparr>content = func parsed, tool_call_id = tc_id toolCall\<rparr>)\<rparr>"

text \<open>
  The schema of the three tools, \<^verbatim>\<open>z.object({ a: z.number(), b: z.number() })\<close>: both
  fields present and numbers.
\<close>

definition schema_a_b :: "(real \<times> real) schema" where
  "schema_a_b args =
     (case args ''a'' of
        Some (JNumber a) \<Rightarrow>
          (case args ''b'' of Some (JNumber b) \<Rightarrow> Some (a, b) | _ \<Rightarrow> None)
      | _ \<Rightarrow> None)"

text \<open>
  The arguments that the schema lets through are finite doubles. \<^verbatim>\<open>a * b\<close> is the
  rounded product. \<^verbatim>\<open>a / b\<close> does not throw: a zero divisor gives \<^verbatim>\<open>NaN\<close> for a
  zero dividend and an infinity of the dividend's sign otherwise (the divisor being
  taken as the positive zero), and the result is the rounded quotient in every other
  case.
\<close>

definition js_multiply :: "real \<Rightarrow> real \<Rightarrow> number" where
  "js_multiply a b = round_double (a * b)"

definition js_divide :: "real \<Rightarrow> real \<Rightarrow> number" where
  "js_divide a b =
     (if b = 0 then (if a = 0 then NaN else if 0 < a then PosInfinity else NegInfinity)
      else round_double (a / b))"

definition add :: tool where
  "add = tool (\<lambda>(a, b). js_add (Num a) (Num b)) ''add'' ''Add two numbers'' schema_a_b"

definition multiply :: tool where
  "multiply = tool (\<lambda>(a, b). js_multiply a b) ''multiply'' ''Multiply two numbers'' schema_a_b"

definition divide :: tool where
  "divide = tool (\<lambda>(a, b). js_divide a b) ''divide'' ''Divide two numbers'' schema_a_b"

text \<open>
  \<^verbatim>\<open>toolsByName\<close> (lines 56-60) is an object literal with three computed keys. Its own
  properties are a finite map; a later key would overwrite an earlier equal one.
\<close>

definition toolsByName :: "string \<rightharpoonup> tool" where
  "toolsByName =
     [tool_name add \<mapsto> add, tool_name multiply \<mapsto> multiply, tool_name divide \<mapsto> divide]"

text \<open>
  \<^verbatim>\<open>toolsByName[toolCall.name]\<close> (line 94) is a property read on an ordinary object: a
  name that is not an own property is looked up in \<^verbatim>\<open>Object.prototype\<close>, whose members
  (functions, and the prototype object itself for \<^verbatim>\<open>__proto__\<close>) are all truthy and
  have no \<^verbatim>\<open>invoke\<close> method. Only a name found in neither place reads as
  \<^verbatim>\<open>undefined\<close>.
\<close>

definition Object_prototype :: "string list" where
  "Object_prototype =
     [''constructor'', ''hasOwnProperty'', ''isPrototypeOf'', ''propertyIsEnumerable'',
      ''toLocaleString'', ''toString'', ''valueOf'', ''__proto__'',
      ''__defineGetter__'', ''__defineSetter__'', ''__lookupGetter__'', ''__lookupSetter__'']"

datatype property = Undefined | OwnTool tool | Inherited

definition get_property :: "(string \<rightharpoonup> tool) \<Rightarrow> string \<Rightarrow> property" where
  "get_property obj key =
     (case obj key of
        Some t \<Rightarrow> OwnTool t
      | None \<Rightarrow> if key \<in> set Object_prototype then Inherited else Undefined)"

section \<open>The tool-dispatch node\<close>

text \<open>
  The loop of \<^verbatim>\<open>toolNode\<close> (lines 92-98), with the array \<^verbatim>\<open>result\<close> as accumulator.
  For each call in order: read the property; \<^verbatim>\<open>continue\<close> when it is falsy; otherwise
  call \<^verbatim>\<open>t.invoke(toolCall)\<close> and wait for it, then push the observation. There is no
  \<^verbatim>\<open>try\<close> around the call, so a failure of \<^verbatim>\<open>invoke\<close> leaves the loop and the
  node; calling \<^verbatim>\<open>invoke\<close> on an inherited member, which has no such method, is a
  \<^verbatim>\<open>TypeError\<close>.
\<close>

fun dispatch :: "(string \<rightharpoonup> tool) \<Rightarrow> toolcall list \<Rightarrow> tool_message list \<Rightarrow> error + tool_message list" where
  "dispatch registry [] result = Inr result"
| "dispatch registry (toolCall # rest) result =
     (case get_property registry (tc_name toolCall) of
        Undefined \<Rightarrow> dispatch registry rest result
      | Inherited \<Rightarrow> Inl TypeError
      | OwnTool t \<Rightarrow>
          (case tool_invoke t toolCall of
             Inl e \<Rightarrow> Inl e
           | Inr observation \<Rightarrow> dispatch registry rest (result @ [observation])))"

definition toolNodeWith :: "(string \<rightharpoonup> tool) \<Rightarrow> state \<Rightarrow> error + partial_update" where
  "toolNodeWith registry st =
     (case at_last (messages st) of
        None \<Rightarrow> Inr \<lparr>messages_upd = Some [], llmCalls_upd = None\<rparr>
      | Some lastMessage \<Rightarrow>
          (case lastMessage of
             AIMessage ai \<Rightarrow>
               (case dispatch registry (case tool_calls ai of None \<Rightarrow> [] | Some calls \<Rightarrow> calls) [] of
                  Inl e \<Rightarrow> Inl e
                | Inr result \<Rightarrow> Inr \<lparr>messages_upd = Some (map ToolMessage result), llmCalls_upd = None\<rparr>)
           | _ \<Rightarrow> Inr \<lparr>messages_upd = Some [], llmCalls_upd = None\<rparr>))"

definition toolNode :: "state \<Rightarrow> error + partial_update" where
  "toolNode = toolNodeWith toolsByName"

subsection \<open>The dispatch loop with its events\<close>

text \<open>
  The handlers are asynchronous operations, and what the node returns does not say when
  each of them ran. The definitions below are the same loop with the events of its
  execution written to a log, in the order in which they happen: \<open>Started toolCall\<close>
  when \<^verbatim>\<open>t.invoke(toolCall)\<close> is called (line 96), \<open>Collected observation\<close> when
  \<^verbatim>\<open>result.push(observation)\<close> has run (line 97). The \<^verbatim>\<open>await\<close> of line 96 keeps the
  loop from going on before the handler has settled, so the push of a call is logged
  before the next call is looked at, and a handler that fails ends the loop with its
  start as the last event.
\<close>

datatype event = Started toolcall | Collected tool_message

definition invoke_logged :: "tool \<Rightarrow> toolcall \<Rightarrow> event list \<Rightarrow> (error + tool_message) \<times> event list" where
  "invoke_logged t toolCall events = (tool_invoke t toolCall, events @ [Started toolCall])"

fun dispatch_events ::
  "(string \<rightharpoonup> tool) \<Rightarrow> toolcall list \<Rightarrow> tool_message list \<Rightarrow> event list \<Rightarrow>
   (error + tool_message list) \<times> event list" where
  "dispatch_events registry [] result events = (Inr result, events)"
| "dispatch_events registry (toolCall # rest) result events =
     (case get_property registry (tc_name toolCall) of
        Undefined \<Rightarrow> dispatch_events registry rest result events
      | Inherited \<Rightarrow> (Inl TypeError, events)
      | OwnTool t \<Rightarrow>
          (case invoke_logged t toolCall events of
             (Inl e, events') \<Rightarrow> (Inl e, events')
           | (Inr observation, events') \<Rightarrow>
               dispatch_events registry rest (result @ [observation])
                 (events' @ [Collected observation])))"

definition toolNodeWith_events ::
  "(string \<rightharpoonup> tool) \<Rightarrow> state \<Rightarrow> event list \<Rightarrow> (error + partial_update) \<times> event list" where
  "toolNodeWith_events registry st events =
     (case at_last (messages st) of
        None \<Rightarrow> (Inr \<lparr>messages_upd = Some [], llmCalls_upd = None\<rparr>, events)
      | Some lastMessage \<Rightarrow>
          (case lastMessage of
             AIMessage ai \<Rightarrow>
               (case dispatch_events registry
                       (case tool_calls ai of None \<Rightarrow> [] | Some calls \<Rightarrow> calls) [] events of
                  (Inl e, events') \<Rightarrow> (Inl e, events')
                | (Inr result, events') \<Rightarrow>
                    (Inr \<lparr>messages_upd = Some (map ToolMessage result), llmCalls_upd = None\<rparr>, events'))
           | _ \<Rightarrow> (Inr \<lparr>messages_upd = Some [], llmCalls_upd = None\<rparr>, events)))"

definition toolNode_events :: "state \<Rightarrow> event list \<Rightarrow> (error + partial_update) \<times> event list" where
  "toolNode_events = toolNodeWith_events toolsByName"

text \<open>
  The events of a batch in which every dispatched call succeeded: for each call that
  names a registered tool, in the order of the batch, the start of its handler followed
  by the push of its observation.
\<close>

definition sequential_events :: "toolcall list \<Rightarrow> tool_message list \<Rightarrow> event list" where
  "sequential_events calls results =
     concat (map (\<lambda>(c, r). [Started c, Collected r]) (zip calls results))"

section \<open>The state schema and its merge\<close>

text \<open>
  Modelled from the spec: the reducer of \<^verbatim>\<open>MessagesValue\<close> belongs to the graph
  library, which is not part of the repository. By section 3 of the specification the
  policy of \<^verbatim>\<open>messages\<close> is append: the returned sequence is concatenated onto the
  existing log.
\<close>

definition MessagesValue :: "message list \<Rightarrow> message list \<Rightarrow> message list" where
  "MessagesValue current returned = current @ returned"

text \<open>
  The reducer declared for \<^verbatim>\<open>llmCalls\<close> at line 68, \<^verbatim>\<open>(x, y) => x + y\<close>, on the
  numbers that \<^verbatim>\<open>z.number()\<close> declares.
\<close>

definition llmCalls_reducer :: "number \<Rightarrow> number \<Rightarrow> number" where
  "llmCalls_reducer x y = js_add x y"

text \<open>
  Modelled from the spec: the merge of \<^verbatim>\<open>StateSchema\<close> belongs to the graph library,
  which is not part of the repository. By section 4.1 of the specification, it applies
  to each field present in the update the policy declared for that field, and leaves a
  field that is absent from the update unchanged.
\<close>

definition merge :: "state \<Rightarrow> partial_update \<Rightarrow> state" where
  "merge st u =
     \<lparr>messages = (case messages_upd u of None \<Rightarrow> messages st | Some ms \<Rightarrow> MessagesValue (messages st) ms),
      llmCalls = (case llmCalls_upd u of None \<Rightarrow> llmCalls st | Some k \<Rightarrow> llmCalls_reducer (llmCalls st) k)\<rparr>"

section \<open>The reasoning node\<close>

text \<open>
  The model backend (\<^verbatim>\<open>modelWithTools\<close>, a network service) is a parameter: it receives
  a list of messages and a backend state of any type, and either fails or answers with
  one Assistant message, leaving a new backend state. \<^verbatim>\<open>llmCall\<close> (lines 72-83) puts the
  fixed system message in front of the log, and returns the answer as the only message
  of its update together with a counter delta of 1. A failure of the backend leaves
  the node.
\<close>

type_synonym 'b backend = "message list \<Rightarrow> 'b \<Rightarrow> (error + ai_message) \<times> 'b"

definition system_instruction :: string where
  "system_instruction =
     ''You are a helpful assistant tasked with performing arithmetic on a set of inputs.''"

definition llmCall :: "'b backend \<Rightarrow> state \<Rightarrow> 'b \<Rightarrow> (error + partial_update) \<times> 'b" where
  "llmCall modelWithTools st b =
     (case modelWithTools (SystemMessage system_instruction # messages st) b of
        (Inl e, b') \<Rightarrow> (Inl e, b')
      | (Inr response, b') \<Rightarrow>
          (Inr \<lparr>messages_upd = Some [AIMessage response], llmCalls_upd = Some (Num 1)\<rparr>, b'))"

section \<open>The graph and its executor\<close>

text \<open>
  \<^verbatim>\<open>StateGraph\<close> with \<^verbatim>\<open>addNode\<close>, \<^verbatim>\<open>addEdge\<close>, \<^verbatim>\<open>addConditionalEdges\<close>,
  \<^verbatim>\<open>compile\<close> and \<^verbatim>\<open>invoke\<close> belongs to the graph library, which is not part of
  the repository. The definitions of this section follow sections 3, 4.2 and 4.6 of the
  specification. A node maps the state to a partial update or fails; it may use the
  backend, whose state it passes on.
\<close>

type_synonym 'b node = "state \<Rightarrow> 'b \<Rightarrow> (error + partial_update) \<times> 'b"

text \<open>
  Modelled from the spec: the graph of section 3, with named nodes, an entry, fixed edges
  and conditional edges (a resolver with its allowed destinations). The tables are
  association lists, the most recent registration first, so that \<^verbatim>\<open>compile\<close> can
  check them.
\<close>

record 'b graph =
  nodes :: "(string \<times> 'b node) list"
  entry :: "string option"
  fixedEdges :: "(string \<times> string) list"
  conditionalEdges :: "(string \<times> (state \<Rightarrow> string) \<times> string list) list"

text \<open>
  Modelled from the spec: the registration operations of section 4.2, starting from the
  graph without nodes and edges. An edge from \<^verbatim>\<open>START\<close> designates the entry.
\<close>

definition StateGraph :: "'b graph" where
  "StateGraph = \<lparr>nodes = [], entry = None, fixedEdges = [], conditionalEdges = []\<rparr>"

definition addNode :: "string \<Rightarrow> 'b node \<Rightarrow> 'b graph \<Rightarrow> 'b graph" where
  "addNode name fn g = g\<lparr>nodes := (name, fn) # nodes g\<rparr>"

definition addEdge :: "string \<Rightarrow> string \<Rightarrow> 'b graph \<Rightarrow> 'b graph" where
  "addEdge source target g =
     (if source = START then g\<lparr>entry := Some target\<rparr>
      else g\<lparr>fixedEdges := (source, target) # fixedEdges g\<rparr>)"

definition addConditionalEdges ::
  "string \<Rightarrow> (state \<Rightarrow> string) \<Rightarrow> string list \<Rightarrow> 'b graph \<Rightarrow> 'b graph" where
  "addConditionalEdges source resolver allowed g =
     g\<lparr>conditionalEdges := (source, resolver, allowed) # conditionalEdges g\<rparr>"

text \<open>Whether a name is a registered node, and whether it is the source of an edge.\<close>

definition declared :: "'b graph \<Rightarrow> string \<Rightarrow> bool" where
  "declared g name = (name \<in> set (map fst (nodes g)))"

definition has_fixed :: "'b graph \<Rightarrow> string \<Rightarrow> bool" where
  "has_fixed g name = (name \<in> set (map fst (fixedEdges g)))"

definition has_conditional :: "'b graph \<Rightarrow> string \<Rightarrow> bool" where
  "has_conditional g name = (name \<in> set (map fst (conditionalEdges g)))"

text \<open>
  Modelled from the spec: the validation of sections 3 and 4.2.
  \<^verbatim>\<open>compile\<close> fails when the entry is unset or undeclared, when an edge names an
  undeclared node (the terminal marker is always allowed as a destination), when a node
  has both a fixed and a conditional edge, and when a node has no outgoing edge.
\<close>

definition compile :: "'b graph \<Rightarrow> error + 'b graph" where
  "compile g =
     (case entry g of
        None \<Rightarrow> Inl (GraphBuildError ''entry is unset'')
      | Some e \<Rightarrow>
          if \<not> declared g e then Inl (GraphBuildError ''undeclared entry'')
          else if list_ex (\<lambda>(source, target). \<not> declared g source \<or> \<not> (declared g target \<or> target = END))
                 (fixedEdges g)
            then Inl (GraphBuildError ''undeclared node in a fixed edge'')
          else if list_ex (\<lambda>(source, resolver, allowed).
                   \<not> declared g source \<or> list_ex (\<lambda>target. \<not> (declared g target \<or> target = END)) allowed)
                 (conditionalEdges g)
            then Inl (GraphBuildError ''undeclared node in a conditional edge'')
          else if list_ex (\<lambda>(source, target). has_conditional g source) (fixedEdges g)
            then Inl (GraphBuildError ''fixed and conditional edge from one node'')
          else if list_ex (\<lambda>(name, fn). \<not> (has_fixed g name \<or> has_conditional g name)) (nodes g)
            then Inl (GraphBuildError ''node without outgoing edge'')
          else Inr g)"

text \<open>
  Modelled from the spec: the destination after a node has run (step 3 of section 4.6): the
  fixed edge when there is one, otherwise the resolver of the conditional edge applied to
  the state after the merge, which must answer the terminal marker or an allowed
  destination.
\<close>

definition destination :: "'b graph \<Rightarrow> string \<Rightarrow> state \<Rightarrow> error + string" where
  "destination g current st =
     (case map_of (fixedEdges g) current of
        Some target \<Rightarrow> Inr target
      | None \<Rightarrow>
          (case map_of (conditionalEdges g) current of
             None \<Rightarrow> Inl (NoOutgoingEdge current)
           | Some (resolver, allowed) \<Rightarrow>
               (let target = resolver st
                in if target = END \<or> target \<in> set allowed then Inr target
                   else Inl (InvalidDestination target))))"

text \<open>
  Modelled from the spec: the states of the executor (section 4.6), with one more for a
  run that a failure has ended.
\<close>

datatype outcome = Terminated state | Aborted error | Running string state

text \<open>
  Modelled from the spec: the step loop of section 4.6. The specification puts no bound on
  the number of iterations, so the loop takes fuel: one unit per node executed. A run ends
  \<open>Terminated\<close> with the final state when the terminal marker is reached,
  \<open>Aborted\<close> when a node or the edge resolution fails, and
  \<open>Running\<close> at the node that would be next when the fuel is used up. The first
  component of the result lists the nodes that were started, in order.
\<close>

fun run :: "nat \<Rightarrow> 'b graph \<Rightarrow> string \<Rightarrow> state \<Rightarrow> 'b \<Rightarrow> string list \<times> outcome" where
  "run 0 g current st b = ([], Running current st)"
| "run (Suc fuel) g current st b =
     (case map_of (nodes g) current of
        None \<Rightarrow> ([], Aborted (UnknownNode current))
      | Some fn \<Rightarrow>
          (case fn st b of
             (Inl e, b') \<Rightarrow> ([current], Aborted e)
           | (Inr u, b') \<Rightarrow>
               (case destination g current (merge st u) of
                  Inl e \<Rightarrow> ([current], Aborted e)
                | Inr target \<Rightarrow>
                    if target = END then ([current], Terminated (merge st u))
                    else (case run fuel g target (merge st u) b' of
                            (trace, out) \<Rightarrow> (current # trace, out)))))"

text \<open>
  Modelled from the spec: by section 3, an invocation creates the state from the caller's
  messages and a zero counter (the default of \<^verbatim>\<open>llmCalls\<close> at line
  67) and runs from the entry.
\<close>

definition invoke :: "'b graph \<Rightarrow> message list \<Rightarrow> 'b \<Rightarrow> nat \<Rightarrow> string list \<times> outcome" where
  "invoke g input b fuel =
     (case entry g of
        None \<Rightarrow> ([], Aborted (GraphBuildError ''entry is unset''))
      | Some e \<Rightarrow> run fuel g e \<lparr>messages = input, llmCalls = Num 0\<rparr> b)"

section \<open>The agent\<close>

text \<open>
  \<^verbatim>\<open>agent\<close> (lines 122-128): the two nodes, the entry edge, the conditional edge of
  \<^verbatim>\<open>llmCall\<close> and the fixed edge of \<^verbatim>\<open>toolNode\<close>, compiled. \<^verbatim>\<open>toolNode\<close> does not
  use the backend.
\<close>

definition agent :: "'b backend \<Rightarrow> error + 'b graph" where
  "agent modelWithTools =
     compile
       (addEdge ''toolNode'' ''llmCall''
         (addConditionalEdges ''llmCall'' shouldContinue [''toolNode'', END]
           (addEdge START ''llmCall''
             (addNode ''toolNode'' (\<lambda>st b. (toolNode st, b))
               (addNode ''llmCall'' (llmCall modelWithTools) StateGraph)))))"

definition agent_invoke :: "'b backend \<Rightarrow> message list \<Rightarrow> 'b \<Rightarrow> nat \<Rightarrow> string list \<times> outcome" where
  "agent_invoke modelWithTools input b fuel =
     (case agent modelWithTools of
        Inl e \<Rightarrow> ([], Aborted e)
      | Inr g \<Rightarrow> invoke g input b fuel)"

text \<open>
  The node sequences \<^verbatim>\<open>llmCall (toolNode llmCall)*\<close>, and their initial segments.
\<close>

fun reasoning_last :: "string list \<Rightarrow> bool" where
  "reasoning_last [] = False"
| "reasoning_last [n] = (n = ''llmCall'')"
| "reasoning_last (n # m # rest) = (n = ''llmCall'' \<and> m = ''toolNode'' \<and> reasoning_last rest)"

fun reasoning_first :: "string list \<Rightarrow> bool" where
  "reasoning_first [] = True"
| "reasoning_first [n] = (n = ''llmCall'')"
| "reasoning_first (n # m # rest) = (n = ''llmCall'' \<and> m = ''toolNode'' \<and> reasoning_first rest)"

section \<open>Example inputs\<close>

definition call_add_3_4 :: toolcall where
  "call_add_3_4 =
     \<lparr>tc_name = ''add'', tc_args = [''a'' \<mapsto> JNumber 3, ''b'' \<mapsto> JNumber 4], tc_id = ''call_1''\<rparr>"

definition call_power :: toolcall where
  "call_power =
     \<lparr>tc_name = ''power'', tc_args = [''a'' \<mapsto> JNumber 2, ''b'' \<mapsto> JNumber 8], tc_id = ''call_2''\<rparr>"

definition call_multiply_2_5 :: toolcall where
  "call_multiply_2_5 =
     \<lparr>tc_name = ''multiply'', tc_args = [''a'' \<mapsto> JNumber 2, ''b'' \<mapsto> JNumber 5], tc_id = ''call_3''\<rparr>"

definition call_add_text :: toolcall where
  "call_add_text =
     \<lparr>tc_name = ''add'', tc_args = [''a'' \<mapsto> JString ''3'', ''b'' \<mapsto> JNumber 4], tc_id = ''call_4''\<rparr>"

definition call_toString :: toolcall where
  "call_toString = \<lparr>tc_name = ''toString'', tc_args = Map.empty, tc_id = ''call_5''\<rparr>"

text \<open>A backend that answers from a script: one Assistant message per invocation, in order.\<close>

definition scripted :: "ai_message list backend" where
  "scripted input script =
     (case script of
        [] \<Rightarrow> (Inl (BackendFailure ''the script is exhausted''), [])
      | response # rest \<Rightarrow> (Inr response, rest))"

definition asking :: "toolcall list \<Rightarrow> state" where
  "asking calls =
     \<lparr>messages = [HumanMessage ''Add 3 and 4'', AIMessage \<lparr>ai_content = [], tool_calls = Some calls\<rparr>],
      llmCalls = Num 1\<rparr>"

section \<open>Properties\<close>

subsection \<open>Number arithmetic\<close>

text \<open>
  \<open>pow2\<close> and \<open>floor_log2\<close> are the power and the logarithm they stand for. A real
  that is a multiple of the spacing of the doubles around it, below the overflow
  threshold, is a double and rounds to itself; so does every integer of magnitude at
  most \<open>2 ^ 53\<close>. The integer \<open>2 ^ 53 + 1\<close> lies half way between two doubles and
  rounds to \<open>2 ^ 53\<close>.
\<close>

lemma pow2_powr: "pow2 e = 2 powr real_of_int e"
  by (simp add: pow2_def powr_real_of_int inverse_eq_divide)

lemma floor_log2_iff:
  "0 < x \<Longrightarrow> \<lfloor>log 2 x\<rfloor> = k \<longleftrightarrow> pow2 k \<le> x \<and> x < pow2 (k + 1)"
  unfolding pow2_powr by (rule floor_log_eq_powr_iff) simp_all

lemma floor_log2_ge1:
  assumes "1 \<le> x"
  shows "floor_log2 x = \<lfloor>log 2 x\<rfloor>"
proof -
  let ?n = "\<lfloor>x\<rfloor>"
  from assms have pos: "0 < x" by simp
  from assms have n: "0 < ?n" by simp
  let ?m = "bitlen ?n"
  from n have m: "1 \<le> ?m" by (auto simp: bitlen_alt_def)
  from bitlen_bounds [OF n] have lo: "2 ^ nat (?m - 1) \<le> ?n" and hi: "?n < 2 ^ nat ?m"
    by simp_all
  from lo have "real_of_int (2 ^ nat (?m - 1)) \<le> real_of_int ?n"
    by (simp only: of_int_le_iff)
  also have "real_of_int ?n \<le> x" by simp
  finally have "real_of_int (2 ^ nat (?m - 1)) \<le> x" .
  then have lo': "2 ^ nat (?m - 1) \<le> x" by simp
  from hi have "?n + 1 \<le> 2 ^ nat ?m" by simp
  then have "real_of_int (?n + 1) \<le> real_of_int (2 ^ nat ?m)"
    by (simp only: of_int_le_iff)
  moreover have "x < real_of_int (?n + 1)" by linarith
  ultimately have "x < real_of_int (2 ^ nat ?m)" by linarith
  then have hi': "x < 2 ^ nat ?m" by simp
  have q1: "pow2 (?m - 1) = 2 ^ nat (?m - 1)"
    using m by (simp add: pow2_def)
  have q2: "pow2 (?m - 1 + 1) = 2 ^ nat ?m"
    using m by (simp add: pow2_def)
  have "pow2 (?m - 1) \<le> x \<and> x < pow2 (?m - 1 + 1)"
    unfolding q1 q2 using lo' hi' by (rule conjI)
  then have "\<lfloor>log 2 x\<rfloor> = ?m - 1"
    by (rule floor_log2_iff [OF pos, THEN iffD2])
  with assms show ?thesis by (simp add: floor_log2_def)
qed

lemma floor_log2_lt1:
  assumes "0 < x" and "x < 1"
  shows "floor_log2 x = \<lfloor>log 2 x\<rfloor>"
proof -
  let ?y = "1 / x"
  let ?n = "\<lceil>?y\<rceil> - 1"
  from assms have y: "1 < ?y" by simp
  then have "2 \<le> \<lceil>?y\<rceil>" by linarith
  then have n: "0 < ?n" by simp
  let ?m = "bitlen ?n"
  from n have m: "1 \<le> ?m" by (auto simp: bitlen_alt_def)
  from bitlen_bounds [OF n] have lo: "2 ^ nat (?m - 1) \<le> ?n" and hi: "?n < 2 ^ nat ?m"
    by simp_all
  from lo have "real_of_int (2 ^ nat (?m - 1)) \<le> real_of_int ?n"
    by (simp only: of_int_le_iff)
  moreover have "real_of_int ?n < ?y" by linarith
  ultimately have "real_of_int (2 ^ nat (?m - 1)) < ?y" by linarith
  then have lo': "2 ^ nat (?m - 1) < ?y" by simp
  from hi have "?n + 1 \<le> 2 ^ nat ?m" by simp
  then have "real_of_int (?n + 1) \<le> real_of_int (2 ^ nat ?m)"
    by (simp only: of_int_le_iff)
  moreover have "?y \<le> real_of_int (?n + 1)" by linarith
  ultimately have "?y \<le> real_of_int (2 ^ nat ?m)" by linarith
  then have hi': "?y \<le> 2 ^ nat ?m" by simp
  have q1: "pow2 (- ?m) = 1 / 2 ^ nat ?m"
    using m by (simp add: pow2_def)
  have q2: "pow2 (- ?m + 1) = 1 / 2 ^ nat (?m - 1)"
  proof (cases "?m = 1")
    case True
    then show ?thesis by (simp add: pow2_def)
  next
    case False
    with m have "\<not> 0 \<le> - ?m + 1" by simp
    moreover have "nat (- (- ?m + 1)) = nat (?m - 1)" by simp
    ultimately show ?thesis
      unfolding pow2_def by (simp only: if_False)
  qed
  from hi' assms(1) have a: "1 / 2 ^ nat ?m \<le> x"
    by (simp add: field_simps)
  from lo' assms(1) have b: "x < 1 / 2 ^ nat (?m - 1)"
    by (simp add: field_simps)
  have "pow2 (- ?m) \<le> x \<and> x < pow2 (- ?m + 1)"
    unfolding q1 q2 using a b by (rule conjI)
  then have "\<lfloor>log 2 x\<rfloor> = - ?m"
    by (rule floor_log2_iff [OF assms(1), THEN iffD2])
  with assms show ?thesis by (simp add: floor_log2_def)
qed

lemma floor_log2_log: "0 < x \<Longrightarrow> floor_log2 x = \<lfloor>log 2 x\<rfloor>"
  using floor_log2_ge1 [of x] floor_log2_lt1 [of x] by (cases "1 \<le> x") simp_all

lemma ulp_exponent_log: "x \<noteq> 0 \<Longrightarrow> ulp_exponent x = max (\<lfloor>log 2 \<bar>x\<bar>\<rfloor> - 52) (- 1074)"
  by (simp add: ulp_exponent_def floor_log2_log)

lemma pow2_pos: "0 < pow2 e"
  by (simp add: pow2_powr)

lemma round_double_exact:
  assumes "x \<noteq> 0" and "x / pow2 (ulp_exponent x) \<in> \<int>" and "\<bar>x\<bar> < 2 ^ 1024"
  shows "round_double x = Num x"
proof -
  let ?u = "pow2 (ulp_exponent x)"
  have u: "0 < ?u" by (rule pow2_pos)
  from assms(2) obtain k :: int where k: "x / ?u = real_of_int k"
    by (auto elim: Ints_cases)
  then have q: "\<lfloor>x / ?u\<rfloor> = k" by simp
  from k u have x: "real_of_int k * ?u = x"
    by (simp add: field_simps)
  from k have r: "x / ?u - real_of_int k = 0"
    by simp
  show ?thesis
    unfolding round_double_def Let_def q r
    using assms(1,3) by (simp add: x)
qed

lemma ulp_exponent_small_int:
  assumes "i \<noteq> 0" and "\<bar>i\<bar> < 2 ^ 53"
  shows "ulp_exponent (real_of_int i) \<le> 0"
proof -
  have pos: "0 < \<bar>real_of_int i\<bar>" using assms(1) by simp
  have "\<bar>real_of_int i\<bar> < 2 ^ 53"
    using assms(2) by (metis of_int_abs of_int_less_numeral_power_cancel_iff)
  then have "\<bar>real_of_int i\<bar> < 2 powr 53" by simp
  with pos have "log 2 \<bar>real_of_int i\<bar> < 53"
    by (simp add: log_less_iff)
  then have "\<lfloor>log 2 \<bar>real_of_int i\<bar>\<rfloor> < 53"
    by (simp add: floor_less_iff)
  moreover from assms(1) have "ulp_exponent (real_of_int i) =
      max (\<lfloor>log 2 \<bar>real_of_int i\<bar>\<rfloor> - 52) (- 1074)"
    by (intro ulp_exponent_log) simp
  ultimately show ?thesis by simp
qed

lemma round_double_small_int:
  assumes "\<bar>i\<bar> < 2 ^ 53"
  shows "round_double (real_of_int i) = Num (real_of_int i)"
proof (cases "i = 0")
  case True
  then show ?thesis by (simp add: round_double_def)
next
  case False
  let ?e = "ulp_exponent (real_of_int i)"
  from ulp_exponent_small_int [OF False assms] have e: "?e \<le> 0" .
  then have "pow2 ?e = 1 / 2 ^ nat (- ?e)"
    by (simp add: pow2_def)
  then have "real_of_int i / pow2 ?e = real_of_int (i * 2 ^ nat (- ?e))"
    by simp
  then have int: "real_of_int i / pow2 ?e \<in> \<int>"
    by (metis Ints_of_int)
  have "\<bar>real_of_int i\<bar> < 2 ^ 53"
    using assms by (metis of_int_abs of_int_less_numeral_power_cancel_iff)
  also have "(2::real) ^ 53 < 2 ^ 1024" by simp
  finally have "\<bar>real_of_int i\<bar> < 2 ^ 1024" .
  with False int show ?thesis by (intro round_double_exact) simp_all
qed

lemma ulp_exponent_2_53: "ulp_exponent (2 ^ 53) = 1" "ulp_exponent (- (2 ^ 53)) = 1"
  by code_simp+

lemma round_double_2_53:
  "round_double (2 ^ 53) = Num (2 ^ 53)"
  "round_double (- (2 ^ 53)) = Num (- (2 ^ 53))"
proof -
  have "(2::real) ^ 53 / pow2 (ulp_exponent (2 ^ 53)) = real_of_int (2 ^ 52)"
    unfolding ulp_exponent_2_53 by (simp add: pow2_def)
  then have "(2::real) ^ 53 / pow2 (ulp_exponent (2 ^ 53)) \<in> \<int>"
    by (simp only: Ints_of_int)
  then show "round_double (2 ^ 53) = Num (2 ^ 53)"
    by (rule round_double_exact [rotated]) simp_all
  have "- ((2::real) ^ 53) / pow2 (ulp_exponent (- (2 ^ 53))) = real_of_int (- (2 ^ 52))"
    unfolding ulp_exponent_2_53 by (simp add: pow2_def)
  then have "- ((2::real) ^ 53) / pow2 (ulp_exponent (- (2 ^ 53))) \<in> \<int>"
    by (simp only: Ints_of_int)
  then show "round_double (- (2 ^ 53)) = Num (- (2 ^ 53))"
    by (rule round_double_exact [rotated]) simp_all
qed

lemma round_double_int:
  assumes "\<bar>i\<bar> \<le> 2 ^ 53"
  shows "round_double (real_of_int i) = Num (real_of_int i)"
proof -
  from assms consider "\<bar>i\<bar> < 2 ^ 53" | "i = 2 ^ 53" | "i = - (2 ^ 53)"
    by linarith
  then show ?thesis
  proof cases
    case 1
    then show ?thesis by (rule round_double_small_int)
  next
    case 2
    then show ?thesis using round_double_2_53(1) by simp
  next
    case 3
    then show ?thesis using round_double_2_53(2) by simp
  qed
qed

lemma round_double_numeral:
  "numeral n \<le> (2::int) ^ 53 \<Longrightarrow> round_double (numeral n) = Num (numeral n)"
  using round_double_int [of "numeral n"] by simp

lemma round_double_1: "round_double 1 = Num 1"
  using round_double_int [of 1] by simp

lemma ulp_exponent_2_53_1: "ulp_exponent (2 ^ 53 + 1) = 1"
  by code_simp

lemma round_double_2_53_1: "round_double (2 ^ 53 + 1) = Num (2 ^ 53)"
  unfolding round_double_def Let_def ulp_exponent_2_53_1
  by (simp add: pow2_def)

lemma js_add_ints:
  assumes "\<bar>i\<bar> \<le> 2 ^ 53" and "\<bar>j\<bar> \<le> 2 ^ 53" and "\<bar>i + j\<bar> \<le> 2 ^ 53"
  shows "js_add (Num (real_of_int i)) (Num (real_of_int j)) = Num (real_of_int (i + j))"
  using round_double_int [OF assms(3)] by simp

lemma round_double_2_53_1_numeral: "round_double 9007199254740993 = Num 9007199254740992"
  using round_double_2_53_1 by simp

lemmas eval_number = js_multiply_def js_divide_def round_double_numeral round_double_1

subsection \<open>The conditional edge\<close>

lemma END_not_toolNode: "END \<noteq> ''toolNode''"
  by (simp add: END_def)

lemma shouldContinue_empty: "messages st = [] \<Longrightarrow> shouldContinue st = END"
  by (simp add: shouldContinue_def at_last_def)

lemma shouldContinue_snoc:
  "messages st = earlier @ [m] \<Longrightarrow>
   shouldContinue st =
     (case m of
        AIMessage ai \<Rightarrow> (case tool_calls ai of Some (c # cs) \<Rightarrow> ''toolNode'' | _ \<Rightarrow> END)
      | _ \<Rightarrow> END)"
  by (simp add: shouldContinue_def at_last_def split: message.splits option.splits list.splits)

lemma shouldContinue_values: "shouldContinue st = ''toolNode'' \<or> shouldContinue st = END"
  by (simp add: shouldContinue_def split: option.splits message.splits)

text \<open>
  C1. The resolver has two possible values. It returns \<^verbatim>\<open>"toolNode"\<close> exactly when the
  log ends with an Assistant message that carries at least one tool call, whatever the
  earlier messages are, and \<^verbatim>\<open>END\<close> in every other case (empty log, last message of
  another kind, Assistant message with absent or empty tool calls).
\<close>

theorem shouldContinue_routing:
  "(shouldContinue st = ''toolNode'' \<or> shouldContinue st = END)
   \<and> (shouldContinue st = ''toolNode'') =
       (\<exists>earlier ai c cs. messages st = earlier @ [AIMessage ai] \<and> tool_calls ai = Some (c # cs))
   \<and> (shouldContinue st = END) =
       (\<nexists>earlier ai c cs. messages st = earlier @ [AIMessage ai] \<and> tool_calls ai = Some (c # cs))"
proof (cases "messages st" rule: rev_cases)
  case Nil
  then show ?thesis
    using END_not_toolNode by (simp add: shouldContinue_empty)
next
  case (snoc earlier m)
  then show ?thesis
    using END_not_toolNode
    by (auto simp: shouldContinue_snoc split: message.splits option.splits list.splits)
qed

subsection \<open>The dispatch loop\<close>

lemma get_property_own: "registry nm = Some t \<Longrightarrow> get_property registry nm = OwnTool t"
  by (simp add: get_property_def)

lemma get_property_absent:
  "registry nm = None \<Longrightarrow> nm \<notin> set Object_prototype \<Longrightarrow> get_property registry nm = Undefined"
  by (simp add: get_property_def)

lemma get_property_inherited:
  "registry nm = None \<Longrightarrow> nm \<in> set Object_prototype \<Longrightarrow> get_property registry nm = Inherited"
  by (simp add: get_property_def)

lemma get_property_cases:
  "get_property registry nm = OwnTool t \<longleftrightarrow> registry nm = Some t"
  "get_property registry nm = Undefined \<Longrightarrow> registry nm = None"
  by (auto simp: get_property_def split: option.splits if_splits)

lemma dispatch_acc:
  "dispatch registry calls acc =
     (case dispatch registry calls [] of Inl e \<Rightarrow> Inl e | Inr new \<Rightarrow> Inr (acc @ new))"
proof (induction calls arbitrary: acc)
  case Nil
  then show ?case by simp
next
  case (Cons c calls)
  show ?case
  proof (cases "get_property registry (tc_name c)")
    case Undefined
    then show ?thesis using Cons.IH [of acc] by simp
  next
    case (OwnTool t)
    show ?thesis
    proof (cases "tool_invoke t c")
      case (Inl e)
      then show ?thesis using OwnTool by simp
    next
      case (Inr obs)
      then show ?thesis
        using OwnTool Cons.IH [of "acc @ [obs]"] Cons.IH [of "[obs]"]
        by (simp split: sum.splits)
    qed
  next
    case Inherited
    then show ?thesis by simp
  qed
qed

lemma dispatch_append:
  "dispatch registry (pre @ rest) acc =
     (case dispatch registry pre acc of Inl e \<Rightarrow> Inl e | Inr collected \<Rightarrow> dispatch registry rest collected)"
  by (induction pre arbitrary: acc) (simp_all split: property.splits sum.splits)

lemma dispatch_results:
  "dispatch registry calls acc = Inr results \<Longrightarrow>
   \<exists>new. results = acc @ new \<and>
     list_all2 (\<lambda>c r. \<exists>t. registry (tc_name c) = Some t \<and> tool_invoke t c = Inr r)
       (filter (\<lambda>c. tc_name c \<in> dom registry) calls) new"
proof (induction calls arbitrary: acc)
  case Nil
  then show ?case by simp
next
  case (Cons c calls)
  show ?case
  proof (cases "get_property registry (tc_name c)")
    case Undefined
    then have "registry (tc_name c) = None" by (rule get_property_cases(2))
    then show ?thesis using Cons Undefined by (simp add: dom_def)
  next
    case (OwnTool t)
    then have reg: "registry (tc_name c) = Some t" by (simp add: get_property_cases(1))
    from Cons.prems OwnTool obtain obs where
      obs: "tool_invoke t c = Inr obs" and rest: "dispatch registry calls (acc @ [obs]) = Inr results"
      by (auto split: sum.splits)
    from Cons.IH [OF rest] obtain new where
      "results = (acc @ [obs]) @ new"
      "list_all2 (\<lambda>c r. \<exists>t. registry (tc_name c) = Some t \<and> tool_invoke t c = Inr r)
         (filter (\<lambda>c. tc_name c \<in> dom registry) calls) new"
      by blast
    then show ?thesis using reg obs by (auto simp: dom_def)
  next
    case Inherited
    then show ?thesis using Cons.prems by simp
  qed
qed

lemma dispatch_prefix:
  "dispatch registry calls acc = Inr results \<Longrightarrow> prefix acc results"
  using dispatch_results [of registry calls acc results] by (auto simp: prefix_def)

lemma toolsByName_dom: "dom toolsByName = {''add'', ''multiply'', ''divide''}"
  by (auto simp: toolsByName_def add_def multiply_def divide_def tool_def split: if_splits)

lemma toolsByName_carries_id:
  "toolsByName nm = Some t \<Longrightarrow> tool_invoke t c = Inr r \<Longrightarrow> tool_call_id r = tc_id c"
  by (auto simp: toolsByName_def add_def multiply_def divide_def tool_def
      split: if_splits option.splits)

lemma toolNodeWith_AIMessage:
  "messages st = earlier @ [AIMessage ai] \<Longrightarrow> tool_calls ai = Some calls \<Longrightarrow>
   toolNodeWith registry st =
     (case dispatch registry calls [] of
        Inl e \<Rightarrow> Inl e
      | Inr result \<Rightarrow> Inr \<lparr>messages_upd = Some (map ToolMessage result), llmCalls_upd = None\<rparr>)"
  by (simp add: toolNodeWith_def at_last_def)

subsection \<open>The events of the dispatch loop\<close>

text \<open>
  Leaving the log out of the loop with events gives the loop itself; a batch whose
  dispatched calls all succeed adds to the log the start and the push of each of them,
  one call after the other.
\<close>

lemma dispatch_events_value:
  "fst (dispatch_events registry calls result events) = dispatch registry calls result"
  by (induction calls arbitrary: result events)
    (simp_all add: invoke_logged_def split: property.splits sum.splits)

lemma toolNodeWith_events_value:
  "fst (toolNodeWith_events registry st events) = toolNodeWith registry st"
proof -
  have "fst (case dispatch_events registry calls [] events of
               (Inl e, events') \<Rightarrow> (Inl e, events')
             | (Inr result, events') \<Rightarrow>
                 (Inr \<lparr>messages_upd = Some (map ToolMessage result), llmCalls_upd = None\<rparr>, events')) =
        (case dispatch registry calls [] of
           Inl e \<Rightarrow> Inl e
         | Inr result \<Rightarrow> Inr \<lparr>messages_upd = Some (map ToolMessage result), llmCalls_upd = None\<rparr>)"
    for calls
    using dispatch_events_value [of registry calls "[]" events]
    by (cases "dispatch_events registry calls [] events") (auto split: sum.splits)
  then show ?thesis
    by (simp add: toolNodeWith_events_def toolNodeWith_def split: option.splits message.splits)
qed

lemma dispatch_events_append:
  "dispatch_events registry (pre @ rest) result events =
     (case dispatch_events registry pre result events of
        (Inl e, events') \<Rightarrow> (Inl e, events')
      | (Inr collected, events') \<Rightarrow> dispatch_events registry rest collected events')"
  by (induction pre arbitrary: result events)
    (simp_all add: invoke_logged_def split: property.splits sum.splits)

lemma sequential_events_Cons:
  "sequential_events (c # calls) (r # results) =
     Started c # Collected r # sequential_events calls results"
  by (simp add: sequential_events_def)

lemma sequential_events_Nil: "sequential_events [] results = []"
  by (simp add: sequential_events_def)

lemma dispatch_events_success:
  "dispatch registry calls result = Inr (result @ new) \<Longrightarrow>
   dispatch_events registry calls result events =
     (Inr (result @ new),
      events @ sequential_events (filter (\<lambda>c. tc_name c \<in> dom registry) calls) new)"
proof (induction calls arbitrary: result events new)
  case Nil
  then show ?case by (simp add: sequential_events_Nil)
next
  case (Cons c calls)
  show ?case
  proof (cases "get_property registry (tc_name c)")
    case Undefined
    then have "registry (tc_name c) = None" by (rule get_property_cases(2))
    then have "tc_name c \<notin> dom registry" by (simp add: dom_def)
    with Cons Undefined show ?thesis by simp
  next
    case (OwnTool t)
    then have reg: "registry (tc_name c) = Some t" by (simp add: get_property_cases(1))
    from Cons.prems OwnTool obtain obs where
      obs: "tool_invoke t c = Inr obs"
      and rest: "dispatch registry calls (result @ [obs]) = Inr (result @ new)"
      by (auto split: sum.splits)
    from dispatch_prefix [OF rest] obtain new' where new: "new = obs # new'"
      by (auto simp: prefix_def)
    with rest have "dispatch registry calls (result @ [obs]) = Inr ((result @ [obs]) @ new')"
      by simp
    from Cons.IH [OF this, of "events @ [Started c, Collected obs]"] OwnTool obs reg new
    show ?thesis
      by (simp add: invoke_logged_def sequential_events_Cons dom_def)
  next
    case Inherited
    then show ?thesis using Cons.prems by simp
  qed
qed

lemma sequential_events_length:
  "length calls = length results \<Longrightarrow> length (sequential_events calls results) = 2 * length results"
  by (induction calls results rule: list_induct2) (simp_all add: sequential_events_Nil sequential_events_Cons)

lemma sequential_events_nth:
  "length calls = length results \<Longrightarrow> k < length results \<Longrightarrow>
   sequential_events calls results ! (2 * k) = Started (calls ! k)
   \<and> sequential_events calls results ! (2 * k + 1) = Collected (results ! k)"
proof (induction calls results arbitrary: k rule: list_induct2)
  case Nil
  then show ?case by simp
next
  case (Cons c calls r results)
  then show ?case
    by (cases k) (simp_all add: sequential_events_Cons)
qed

lemma sequential_events_started:
  "Started c \<in> set (sequential_events calls results) \<Longrightarrow> c \<in> set calls"
  by (auto simp: sequential_events_def dest: set_zip_leftD)

subsection \<open>Order of the results\<close>

text \<open>
  C2. When the log ends with an Assistant message that carries the calls \<open>calls\<close> and
  the dispatch node returns an update, the update's messages are tool messages, one for
  each call that names a registered tool, in the order of the calls, each the
  observation of its call's handler and carrying the id of its call; when every call
  names a registered tool there is exactly one result per call, with the ids of the
  calls in their order. The handlers run strictly one after the other: the events of
  the node are, for each such call in the order of the batch, the start of its handler
  immediately followed by the push of its result, so that the result of the \<open>k\<close>-th
  call is collected (event \<open>2 * k + 1\<close>) before the handler of the next call is
  started (event \<open>2 * k + 2\<close>). At every position of the batch, the results collected
  when the loop arrives there are those of the earlier calls and nothing else, and
  they are an initial segment of the final result.
\<close>

theorem toolNode_ordering:
  assumes "messages st = earlier @ [AIMessage ai]"
    and "tool_calls ai = Some calls"
    and "toolNode st = Inr u"
  shows "\<exists>results.
      u = \<lparr>messages_upd = Some (map ToolMessage results), llmCalls_upd = None\<rparr>
    \<and> list_all2
        (\<lambda>c r. tool_call_id r = tc_id c
           \<and> (\<exists>t. toolsByName (tc_name c) = Some t \<and> tool_invoke t c = Inr r))
        (filter (\<lambda>c. tc_name c \<in> dom toolsByName) calls) results
    \<and> (\<forall>pre c post. calls = pre @ c # post \<longrightarrow>
         (\<exists>collected. dispatch toolsByName pre [] = Inr collected \<and> prefix collected results
            \<and> dispatch toolsByName (c # post) collected = Inr results))
    \<and> (list_all (\<lambda>c. tc_name c \<in> dom toolsByName) calls \<longrightarrow>
         map tool_call_id results = map tc_id calls)
    \<and> (\<forall>events. toolNode_events st events =
         (Inr u,
          events @ sequential_events (filter (\<lambda>c. tc_name c \<in> dom toolsByName) calls) results))
    \<and> (\<forall>events k. k < length results \<longrightarrow>
         snd (toolNode_events st events) ! (length events + 2 * k) =
           Started (filter (\<lambda>c. tc_name c \<in> dom toolsByName) calls ! k)
         \<and> snd (toolNode_events st events) ! (length events + 2 * k + 1) =
           Collected (results ! k))"
proof -
  let ?resolved = "filter (\<lambda>c. tc_name c \<in> dom toolsByName) calls"
  from assms obtain results where
    d: "dispatch toolsByName calls [] = Inr results"
    and u: "u = \<lparr>messages_upd = Some (map ToolMessage results), llmCalls_upd = None\<rparr>"
    by (auto simp: toolNode_def toolNodeWith_AIMessage split: sum.splits)
  from dispatch_results [OF d] have
    l: "list_all2 (\<lambda>c r. \<exists>t. toolsByName (tc_name c) = Some t \<and> tool_invoke t c = Inr r)
          (filter (\<lambda>c. tc_name c \<in> dom toolsByName) calls) results"
    by simp
  then have l2: "list_all2
        (\<lambda>c r. tool_call_id r = tc_id c
           \<and> (\<exists>t. toolsByName (tc_name c) = Some t \<and> tool_invoke t c = Inr r))
        (filter (\<lambda>c. tc_name c \<in> dom toolsByName) calls) results"
    by (rule list_all2_mono) (auto dest: toolsByName_carries_id)
  have seq: "\<exists>collected. dispatch toolsByName pre [] = Inr collected \<and> prefix collected results
            \<and> dispatch toolsByName (c # post) collected = Inr results"
    if "calls = pre @ c # post" for pre c post
  proof -
    from d that have "dispatch toolsByName (pre @ c # post) [] = Inr results" by simp
    then obtain collected where p: "dispatch toolsByName pre [] = Inr collected"
      and r: "dispatch toolsByName (c # post) collected = Inr results"
      by (auto simp: dispatch_append split: sum.splits)
    from dispatch_prefix [OF r] p r show ?thesis by blast
  qed
  have ids: "map tool_call_id results = map tc_id calls"
    if "list_all (\<lambda>c. tc_name c \<in> dom toolsByName) calls"
  proof -
    from that have "filter (\<lambda>c. tc_name c \<in> dom toolsByName) calls = calls"
      by (simp add: list_all_iff)
    with l2 have "list_all2 (\<lambda>c r. tool_call_id r = tc_id c) calls results"
      by (auto elim: list_all2_mono)
    then show ?thesis
      by (induction rule: list_all2_induct) auto
  qed
  have ev: "toolNode_events st events = (Inr u, events @ sequential_events ?resolved results)"
    for events
  proof -
    from d have "dispatch toolsByName calls [] = Inr ([] @ results)" by simp
    from dispatch_events_success [OF this, of events]
    have "dispatch_events toolsByName calls [] events =
        (Inr results, events @ sequential_events ?resolved results)"
      by simp
    with assms(1,2) u show ?thesis
      by (simp add: toolNode_events_def toolNodeWith_events_def at_last_def)
  qed
  from l2 have len: "length ?resolved = length results"
    by (rule list_all2_lengthD)
  have pos: "snd (toolNode_events st events) ! (length events + 2 * k) = Started (?resolved ! k)
      \<and> snd (toolNode_events st events) ! (length events + 2 * k + 1) = Collected (results ! k)"
    if "k < length results" for events k
    using sequential_events_nth [OF len that] by (simp add: ev nth_append add.assoc)
  from seq have seq': "\<forall>pre c post. calls = pre @ c # post \<longrightarrow>
         (\<exists>collected. dispatch toolsByName pre [] = Inr collected \<and> prefix collected results
            \<and> dispatch toolsByName (c # post) collected = Inr results)"
    by blast
  from ids have ids': "list_all (\<lambda>c. tc_name c \<in> dom toolsByName) calls \<longrightarrow>
         map tool_call_id results = map tc_id calls"
    by blast
  from ev have ev': "\<forall>events. toolNode_events st events =
         (Inr u, events @ sequential_events ?resolved results)"
    by blast
  from pos have pos': "\<forall>events k. k < length results \<longrightarrow>
         snd (toolNode_events st events) ! (length events + 2 * k) = Started (?resolved ! k)
         \<and> snd (toolNode_events st events) ! (length events + 2 * k + 1) =
           Collected (results ! k)"
    by blast
  show ?thesis
    by (rule exI [of _ results]) (intro conjI, (rule u l2 seq' ids' ev' pos')+)
qed

subsection \<open>Evaluation at the example inputs\<close>

lemmas eval_tools =
  toolNode_def toolNodeWith_def at_last_def get_property_def toolsByName_def
  add_def multiply_def divide_def tool_def schema_a_b_def Object_prototype_def
  asking_def call_add_3_4_def call_power_def call_multiply_2_5_def call_add_text_def
  call_toString_def eval_number

lemmas eval_events =
  toolNode_events_def toolNodeWith_events_def invoke_logged_def

text \<open>
  A batch of three calls, the second naming a tool that does not exist: the update holds
  the results of the first and the third call, in that order, with their ids.
\<close>

theorem toolNode_ordering_witness:
  "messages (asking [call_add_3_4, call_power, call_multiply_2_5]) =
     [HumanMessage ''Add 3 and 4''] @
     [AIMessage \<lparr>ai_content = [], tool_calls = Some [call_add_3_4, call_power, call_multiply_2_5]\<rparr>]
   \<and> toolNode (asking [call_add_3_4, call_power, call_multiply_2_5]) =
       Inr \<lparr>messages_upd = Some [ToolMessage \<lparr>content = Num 7, tool_call_id = ''call_1''\<rparr>,
                                 ToolMessage \<lparr>content = Num 10, tool_call_id = ''call_3''\<rparr>],
            llmCalls_upd = None\<rparr>
   \<and> (\<exists>results.
        [ToolMessage \<lparr>content = Num 7, tool_call_id = ''call_1''\<rparr>,
         ToolMessage \<lparr>content = Num 10, tool_call_id = ''call_3''\<rparr>] = map ToolMessage results
      \<and> list_all2
          (\<lambda>c r. tool_call_id r = tc_id c
             \<and> (\<exists>t. toolsByName (tc_name c) = Some t \<and> tool_invoke t c = Inr r))
          [call_add_3_4, call_multiply_2_5] results)
   \<and> toolNode_events (asking [call_add_3_4, call_power, call_multiply_2_5]) [] =
       (Inr \<lparr>messages_upd = Some [ToolMessage \<lparr>content = Num 7, tool_call_id = ''call_1''\<rparr>,
                                  ToolMessage \<lparr>content = Num 10, tool_call_id = ''call_3''\<rparr>],
             llmCalls_upd = None\<rparr>,
        [Started call_add_3_4, Collected \<lparr>content = Num 7, tool_call_id = ''call_1''\<rparr>,
         Started call_multiply_2_5, Collected \<lparr>content = Num 10, tool_call_id = ''call_3''\<rparr>])"
proof -
  let ?calls = "[call_add_3_4, call_power, call_multiply_2_5]"
  let ?ai = "\<lparr>ai_content = [], tool_calls = Some ?calls\<rparr>"
  let ?u = "\<lparr>messages_upd = Some [ToolMessage \<lparr>content = Num 7, tool_call_id = ''call_1''\<rparr>,
                             ToolMessage \<lparr>content = Num 10, tool_call_id = ''call_3''\<rparr>],
        llmCalls_upd = None\<rparr>"
  have h1: "messages (asking ?calls) = [HumanMessage ''Add 3 and 4''] @ [AIMessage ?ai]"
    by (simp add: asking_def)
  have h2: "tool_calls ?ai = Some ?calls"
    by simp
  have h3: "toolNode (asking ?calls) = Inr ?u"
    by (simp add: eval_tools)
  have f: "filter (\<lambda>c. tc_name c \<in> dom toolsByName) ?calls = [call_add_3_4, call_multiply_2_5]"
    by (simp add: toolsByName_dom call_add_3_4_def call_power_def call_multiply_2_5_def)
  from toolNode_ordering [OF h1 h2 h3] have "\<exists>results.
      ?u = \<lparr>messages_upd = Some (map ToolMessage results), llmCalls_upd = None\<rparr>
    \<and> list_all2
          (\<lambda>c r. tool_call_id r = tc_id c
             \<and> (\<exists>t. toolsByName (tc_name c) = Some t \<and> tool_invoke t c = Inr r))
          (filter (\<lambda>c. tc_name c \<in> dom toolsByName) ?calls) results"
    by (elim exE conjE) (intro exI conjI; assumption)
  then obtain results where
    r: "?u = \<lparr>messages_upd = Some (map ToolMessage results), llmCalls_upd = None\<rparr>"
    and l: "list_all2
          (\<lambda>c r. tool_call_id r = tc_id c
             \<and> (\<exists>t. toolsByName (tc_name c) = Some t \<and> tool_invoke t c = Inr r))
          (filter (\<lambda>c. tc_name c \<in> dom toolsByName) ?calls) results"
    by (elim exE conjE) (rule that)
  from r have m: "[ToolMessage \<lparr>content = Num 7, tool_call_id = ''call_1''\<rparr>,
         ToolMessage \<lparr>content = Num 10, tool_call_id = ''call_3''\<rparr>] = map ToolMessage results"
    by simp
  from l have l': "list_all2
          (\<lambda>c r. tool_call_id r = tc_id c
             \<and> (\<exists>t. toolsByName (tc_name c) = Some t \<and> tool_invoke t c = Inr r))
          [call_add_3_4, call_multiply_2_5] results"
    unfolding f .
  from toolNode_ordering [OF h1 h2 h3] have "\<exists>results.
      ?u = \<lparr>messages_upd = Some (map ToolMessage results), llmCalls_upd = None\<rparr>
    \<and> toolNode_events (asking ?calls) [] =
         (Inr ?u, [] @ sequential_events (filter (\<lambda>c. tc_name c \<in> dom toolsByName) ?calls) results)"
    by (elim exE conjE) (intro exI conjI, assumption, erule allE, assumption)
  then obtain results' where
    r': "?u = \<lparr>messages_upd = Some (map ToolMessage results'), llmCalls_upd = None\<rparr>"
    and e': "toolNode_events (asking ?calls) [] =
         (Inr ?u, [] @ sequential_events (filter (\<lambda>c. tc_name c \<in> dom toolsByName) ?calls) results')"
    by (elim exE conjE) (rule that)
  from r' have "results' = [\<lparr>content = Num 7, tool_call_id = ''call_1''\<rparr>,
                               \<lparr>content = Num 10, tool_call_id = ''call_3''\<rparr>]"
    by (auto simp: map_eq_Cons_conv)
  with e' have ev: "toolNode_events (asking ?calls) [] =
       (Inr ?u,
        [Started call_add_3_4, Collected \<lparr>content = Num 7, tool_call_id = ''call_1''\<rparr>,
         Started call_multiply_2_5, Collected \<lparr>content = Num 10, tool_call_id = ''call_3''\<rparr>])"
    unfolding f by (simp add: sequential_events_def)
  show ?thesis
    by (intro conjI exI [of _ results]) (rule h1 h3 m l' ev)+
qed

subsection \<open>A failing handler\<close>

text \<open>
  The tool \<^verbatim>\<open>add\<close> called with a string for \<^verbatim>\<open>a\<close>: the schema rejects the input,
  \<^verbatim>\<open>invoke\<close> fails, and the dispatch node fails with it. No update is returned, so
  no tool message stands for the failed call and the call \<^verbatim>\<open>multiply\<close> that follows it
  in the batch produces nothing.
\<close>

theorem toolNode_failure_counterexample:
  "tool_invoke add call_add_text = Inl ToolInputParsingException
   \<and> toolNode (asking [call_add_text, call_multiply_2_5]) = Inl ToolInputParsingException"
  by (simp add: eval_tools)

text \<open>
  C3, as the code behaves. When the handler of a call of the batch fails, and the calls
  before it were dispatched without failure, the dispatch loop fails with the handler's
  error and so does the node: no update is returned, whatever calls follow in the batch
  and whatever results were collected before. The events of the node end with the start
  of the failing handler: nothing is collected for the failed call, and no handler is
  started for a call that comes after it in the batch.
\<close>

theorem toolNode_failure_propagates:
  assumes "messages st = earlier @ [AIMessage ai]"
    and "tool_calls ai = Some (pre @ c # post)"
    and "dispatch registry pre [] = Inr collected"
    and "registry (tc_name c) = Some t"
    and "tool_invoke t c = Inl e"
  shows "dispatch registry (pre @ c # post) [] = Inl e
       \<and> toolNodeWith registry st = Inl e
       \<and> toolNodeWith_events registry st events =
           (Inl e,
            events @ sequential_events (filter (\<lambda>c. tc_name c \<in> dom registry) pre) collected
              @ [Started c])
       \<and> (\<forall>c'. Started c' \<in> set (snd (toolNodeWith_events registry st events)) \<longrightarrow>
              Started c' \<in> set events \<or> c' \<in> set pre \<or> c' = c)"
proof -
  let ?before = "events @ sequential_events (filter (\<lambda>c. tc_name c \<in> dom registry) pre) collected"
  from assms(4) have p: "get_property registry (tc_name c) = OwnTool t"
    by (rule get_property_own)
  with assms(3,5) have d: "dispatch registry (pre @ c # post) [] = Inl e"
    by (simp add: dispatch_append)
  with assms(1,2) have n: "toolNodeWith registry st = Inl e"
    by (simp add: toolNodeWith_AIMessage)
  from assms(3) have "dispatch registry pre [] = Inr ([] @ collected)"
    by simp
  from dispatch_events_success [OF this, of events]
  have "dispatch_events registry pre [] events = (Inr collected, ?before)"
    by simp
  with p assms(5) have
    "dispatch_events registry (pre @ c # post) [] events = (Inl e, ?before @ [Started c])"
    by (simp add: dispatch_events_append invoke_logged_def)
  with assms(1,2) have ev: "toolNodeWith_events registry st events = (Inl e, ?before @ [Started c])"
    by (simp add: toolNodeWith_events_def at_last_def)
  have only: "Started c' \<in> set events \<or> c' \<in> set pre \<or> c' = c"
    if "Started c' \<in> set (snd (toolNodeWith_events registry st events))" for c'
    using that unfolding ev by (auto dest: sequential_events_started)
  from d n ev only show ?thesis
    by simp
qed

theorem toolNode_failure_propagates_witness:
  "dispatch toolsByName [call_add_3_4] [] = Inr [\<lparr>content = Num 7, tool_call_id = ''call_1''\<rparr>]
   \<and> toolsByName (tc_name call_add_text) = Some add
   \<and> tool_invoke add call_add_text = Inl ToolInputParsingException
   \<and> toolNode (asking ([call_add_3_4] @ call_add_text # [call_multiply_2_5])) =
       Inl ToolInputParsingException
   \<and> toolNode_events (asking ([call_add_3_4] @ call_add_text # [call_multiply_2_5])) [] =
       (Inl ToolInputParsingException,
        [Started call_add_3_4, Collected \<lparr>content = Num 7, tool_call_id = ''call_1''\<rparr>,
         Started call_add_text])"
proof -
  let ?calls = "[call_add_3_4] @ call_add_text # [call_multiply_2_5]"
  let ?ai = "\<lparr>ai_content = [], tool_calls = Some ?calls\<rparr>"
  have h1: "messages (asking ?calls) = [HumanMessage ''Add 3 and 4''] @ [AIMessage ?ai]"
    by (simp add: asking_def)
  have h2: "tool_calls ?ai = Some ?calls"
    by simp
  have h3: "dispatch toolsByName [call_add_3_4] [] = Inr [\<lparr>content = Num 7, tool_call_id = ''call_1''\<rparr>]"
    by (simp add: eval_tools)
  have h4: "toolsByName (tc_name call_add_text) = Some add"
    by (simp add: eval_tools)
  have h5: "tool_invoke add call_add_text = Inl ToolInputParsingException"
    by (simp add: eval_tools)
  have f: "filter (\<lambda>c. tc_name c \<in> dom toolsByName) [call_add_3_4] = [call_add_3_4]"
    by (simp add: toolsByName_dom call_add_3_4_def)
  note w = toolNode_failure_propagates [OF h1 h2 h3 h4 h5, of "[]"]
  from w have n: "toolNode (asking ?calls) = Inl ToolInputParsingException"
    by (simp add: toolNode_def)
  from w have ev: "toolNode_events (asking ?calls) [] =
       (Inl ToolInputParsingException,
        [Started call_add_3_4, Collected \<lparr>content = Num 7, tool_call_id = ''call_1''\<rparr>,
         Started call_add_text])"
    unfolding f by (simp add: toolNode_events_def sequential_events_def)
  show ?thesis
    by (intro conjI) (rule h3 h4 h5 n ev)+
qed

subsection \<open>Names that are not keys of the registry\<close>

text \<open>
  A call whose name is neither a key of the registry nor a member of
  \<^verbatim>\<open>Object.prototype\<close> is skipped, and the loop goes on with the next call.
\<close>

lemma dispatch_skips_unknown:
  "registry (tc_name c) = None \<Longrightarrow> tc_name c \<notin> set Object_prototype \<Longrightarrow>
   dispatch registry (c # rest) acc = dispatch registry rest acc"
  by (simp add: get_property_absent)

lemma dispatch_all_unknown:
  "list_all (\<lambda>c. registry (tc_name c) = None \<and> tc_name c \<notin> set Object_prototype) calls \<Longrightarrow>
   dispatch registry calls acc = Inr acc"
  by (induction calls) (simp_all add: get_property_absent)

text \<open>
  C5. The name \<^verbatim>\<open>toString\<close> is not a key of \<^verbatim>\<open>toolsByName\<close>, but the property read
  finds the inherited function, the test \<^verbatim>\<open>!t\<close> is false, and the call of the missing
  \<^verbatim>\<open>invoke\<close> method throws: the node fails instead of skipping the call, and the
  call \<^verbatim>\<open>add\<close> after it, which alone gives one tool message, is not dispatched.
\<close>

theorem toolNode_inherited_name:
  "toolsByName (tc_name call_toString) = None
   \<and> toolNode (asking [call_toString, call_add_3_4]) = Inl TypeError
   \<and> toolNode (asking [call_add_3_4]) =
       Inr \<lparr>messages_upd = Some [ToolMessage \<lparr>content = Num 7, tool_call_id = ''call_1''\<rparr>],
            llmCalls_upd = None\<rparr>"
  by (simp add: eval_tools)

subsection \<open>The merge\<close>

text \<open>
  C6. The merged log is the old log followed by the messages of the update (by nothing
  when the update has no messages field): the old log is a prefix of the new one, its
  messages keep their positions, and the log does not get shorter.
\<close>

theorem merge_messages_append:
  "messages (merge st u) = messages st @ (case messages_upd u of None \<Rightarrow> [] | Some ms \<Rightarrow> ms)
   \<and> prefix (messages st) (messages (merge st u))
   \<and> take (length (messages st)) (messages (merge st u)) = messages st
   \<and> length (messages st) \<le> length (messages (merge st u))"
  by (simp add: merge_def MessagesValue_def split: option.splits)

text \<open>
  The counter \<open>2 ^ 53\<close> merged with the delta 1: the sum \<open>2 ^ 53 + 1\<close> is not a
  double, the reducer returns \<open>2 ^ 53\<close>, and the merged counter is not the counter
  plus the delta.
\<close>

theorem merge_llmCalls_counterexample:
  "llmCalls (merge \<lparr>messages = [], llmCalls = Num (2 ^ 53)\<rparr>
              \<lparr>messages_upd = None, llmCalls_upd = Some (Num 1)\<rparr>) = Num (2 ^ 53)
   \<and> Num (2 ^ 53) \<noteq> Num (2 ^ 53 + 1)"
  by (simp add: merge_def llmCalls_reducer_def round_double_2_53_1_numeral)

text \<open>
  C7, as the code behaves. The merge applies the reducer \<^verbatim>\<open>(x, y) => x + y\<close>, the
  addition of doubles. For a counter \<open>c\<close> and a delta \<open>k\<close> that are integers with
  \<open>\<bar>c\<bar>\<close>, \<open>\<bar>k\<bar>\<close> and \<open>\<bar>c + k\<bar>\<close> at most \<open>2 ^ 53\<close>, the merged counter is exactly
  \<open>c + k\<close>; for any finite counter and delta it is their sum rounded to a double;
  an update without the counter field leaves the counter as it is.
\<close>

theorem merge_llmCalls_additive:
  "(\<bar>c\<bar> \<le> 2 ^ 53 \<and> \<bar>k\<bar> \<le> 2 ^ 53 \<and> \<bar>c + k\<bar> \<le> 2 ^ 53 \<longrightarrow>
      llmCalls (merge (st\<lparr>llmCalls := Num (real_of_int c)\<rparr>)
                 (u\<lparr>llmCalls_upd := Some (Num (real_of_int k))\<rparr>)) = Num (real_of_int (c + k)))
   \<and> llmCalls (merge (st\<lparr>llmCalls := Num a\<rparr>) (u\<lparr>llmCalls_upd := Some (Num b)\<rparr>)) =
       round_double (a + b)
   \<and> llmCalls (merge st (u\<lparr>llmCalls_upd := None\<rparr>)) = llmCalls st"
  using js_add_ints [of c k] by (simp add: merge_def llmCalls_reducer_def)

theorem merge_llmCalls_additive_witness:
  "\<bar>1 :: int\<bar> \<le> 2 ^ 53 \<and> \<bar>1 + 1 :: int\<bar> \<le> 2 ^ 53
   \<and> llmCalls (merge \<lparr>messages = [], llmCalls = Num 1\<rparr>
                  \<lparr>messages_upd = None, llmCalls_upd = Some (Num 1)\<rparr>) = Num 2"
proof -
  have h: "\<bar>1 :: int\<bar> \<le> 2 ^ 53 \<and> \<bar>1 :: int\<bar> \<le> 2 ^ 53 \<and> \<bar>1 + 1 :: int\<bar> \<le> 2 ^ 53"
    by simp
  from merge_llmCalls_additive
    [where c = 1 and k = 1 and st = "\<lparr>messages = [], llmCalls = NaN\<rparr>"
       and u = "\<lparr>messages_upd = None, llmCalls_upd = None\<rparr>", THEN conjunct1, THEN mp, OF h]
  have "llmCalls (merge \<lparr>messages = [], llmCalls = Num 1\<rparr>
                  \<lparr>messages_upd = None, llmCalls_upd = Some (Num 1)\<rparr>) = Num 2"
    by simp
  with h show ?thesis
    by simp
qed

subsection \<open>The reasoning node\<close>

text \<open>
  At the counter \<open>2 ^ 53\<close> the update of the reasoning node, merged, leaves the counter
  at \<open>2 ^ 53\<close>: it is not increased by one.
\<close>

theorem llmCall_counter_counterexample:
  "llmCall scripted \<lparr>messages = [HumanMessage ''Add 3 and 4''], llmCalls = Num (2 ^ 53)\<rparr>
       [\<lparr>ai_content = ''7'', tool_calls = None\<rparr>] =
     (Inr \<lparr>messages_upd = Some [AIMessage \<lparr>ai_content = ''7'', tool_calls = None\<rparr>], llmCalls_upd = Some (Num 1)\<rparr>, [])
   \<and> llmCalls (merge \<lparr>messages = [HumanMessage ''Add 3 and 4''], llmCalls = Num (2 ^ 53)\<rparr>
        \<lparr>messages_upd = Some [AIMessage \<lparr>ai_content = ''7'', tool_calls = None\<rparr>], llmCalls_upd = Some (Num 1)\<rparr>) =
       Num (2 ^ 53)"
  by (simp add: llmCall_def scripted_def merge_def llmCalls_reducer_def round_double_2_53_1_numeral)

text \<open>
  C8, as the code behaves. When the backend answers with a message, the update of
  \<^verbatim>\<open>llmCall\<close> consists of that one Assistant message and the counter delta 1; merging it
  appends exactly that message to the log and adds 1 to the counter by the addition of
  doubles, which increases the counter by exactly one whenever the counter is an
  integer of magnitude below \<open>2 ^ 53\<close>.
\<close>

theorem llmCall_contract:
  assumes "modelWithTools (SystemMessage system_instruction # messages st) b = (Inr response, b')"
  shows "llmCall modelWithTools st b =
           (Inr \<lparr>messages_upd = Some [AIMessage response], llmCalls_upd = Some (Num 1)\<rparr>, b')
       \<and> messages (merge st \<lparr>messages_upd = Some [AIMessage response], llmCalls_upd = Some (Num 1)\<rparr>) =
           messages st @ [AIMessage response]
       \<and> length (messages (merge st \<lparr>messages_upd = Some [AIMessage response], llmCalls_upd = Some (Num 1)\<rparr>)) =
           length (messages st) + 1
       \<and> llmCalls (merge st \<lparr>messages_upd = Some [AIMessage response], llmCalls_upd = Some (Num 1)\<rparr>) =
           js_add (llmCalls st) (Num 1)
       \<and> (\<forall>i. llmCalls st = Num (real_of_int i) \<and> \<bar>i\<bar> < 2 ^ 53 \<longrightarrow>
            llmCalls (merge st \<lparr>messages_upd = Some [AIMessage response], llmCalls_upd = Some (Num 1)\<rparr>) =
              Num (real_of_int (i + 1)))"
proof -
  have "js_add (Num (real_of_int i)) (Num 1) = Num (real_of_int (i + 1))" if "\<bar>i\<bar> < 2 ^ 53" for i
    using that js_add_ints [of i 1] by simp
  then show ?thesis
    using assms by (simp add: llmCall_def merge_def MessagesValue_def llmCalls_reducer_def)
qed

theorem llmCall_contract_witness:
  "scripted (SystemMessage system_instruction # messages \<lparr>messages = [HumanMessage ''Add 3 and 4''], llmCalls = Num 0\<rparr>)
       [\<lparr>ai_content = ''7'', tool_calls = None\<rparr>] =
     (Inr \<lparr>ai_content = ''7'', tool_calls = None\<rparr>, [])
   \<and> llmCall scripted \<lparr>messages = [HumanMessage ''Add 3 and 4''], llmCalls = Num 0\<rparr>
       [\<lparr>ai_content = ''7'', tool_calls = None\<rparr>] =
     (Inr \<lparr>messages_upd = Some [AIMessage \<lparr>ai_content = ''7'', tool_calls = None\<rparr>], llmCalls_upd = Some (Num 1)\<rparr>, [])
   \<and> llmCalls (merge \<lparr>messages = [HumanMessage ''Add 3 and 4''], llmCalls = Num 0\<rparr>
        \<lparr>messages_upd = Some [AIMessage \<lparr>ai_content = ''7'', tool_calls = None\<rparr>], llmCalls_upd = Some (Num 1)\<rparr>) = Num 1"
proof -
  let ?st = "\<lparr>messages = [HumanMessage ''Add 3 and 4''], llmCalls = Num 0\<rparr>"
  have h: "scripted (SystemMessage system_instruction # messages ?st)
       [\<lparr>ai_content = ''7'', tool_calls = None\<rparr>] =
     (Inr \<lparr>ai_content = ''7'', tool_calls = None\<rparr>, [])"
    by (simp add: scripted_def)
  note w = llmCall_contract [of scripted ?st _ _ _, OF h]
  have c: "llmCalls ?st = Num (real_of_int 0) \<and> \<bar>0 :: int\<bar> < 2 ^ 53"
    by simp
  from w have "\<forall>i. llmCalls ?st = Num (real_of_int i) \<and> \<bar>i\<bar> < 2 ^ 53 \<longrightarrow>
      llmCalls (merge ?st \<lparr>messages_upd = Some [AIMessage \<lparr>ai_content = ''7'', tool_calls = None\<rparr>], llmCalls_upd = Some (Num 1)\<rparr>) =
        Num (real_of_int (i + 1))"
    by (elim conjE)
  then have "llmCalls ?st = Num (real_of_int 0) \<and> \<bar>0 :: int\<bar> < 2 ^ 53 \<longrightarrow>
      llmCalls (merge ?st \<lparr>messages_upd = Some [AIMessage \<lparr>ai_content = ''7'', tool_calls = None\<rparr>], llmCalls_upd = Some (Num 1)\<rparr>) =
        Num (real_of_int (0 + 1))"
    by (rule spec)
  with c have m: "llmCalls (merge ?st \<lparr>messages_upd = Some [AIMessage \<lparr>ai_content = ''7'', tool_calls = None\<rparr>], llmCalls_upd = Some (Num 1)\<rparr>) = Num 1"
    by simp
  show ?thesis
    by (intro conjI) (rule h, rule w [THEN conjunct1], rule m)
qed

subsection \<open>The dispatch node and the counter\<close>

lemma toolNodeWith_no_counter:
  "toolNodeWith registry st = Inr u \<Longrightarrow> llmCalls_upd u = None"
  by (auto simp: toolNodeWith_def split: option.splits message.splits sum.splits)

text \<open>
  C9. An update returned by the dispatch node has no counter field, so merging it leaves
  the counter at its value; this includes the branch taken when the log is empty or
  its last message is not an Assistant message, where the node returns the update with
  an empty list of messages.
\<close>

theorem toolNode_frame:
  "(toolNode st = Inr u \<longrightarrow> llmCalls_upd u = None \<and> llmCalls (merge st u) = llmCalls st)
   \<and> (messages st = [] \<or> (\<forall>ai. last (messages st) \<noteq> AIMessage ai) \<longrightarrow>
        toolNode st = Inr \<lparr>messages_upd = Some [], llmCalls_upd = None\<rparr>)"
proof -
  have "llmCalls_upd u = None \<and> llmCalls (merge st u) = llmCalls st" if "toolNode st = Inr u"
  proof -
    from that have "llmCalls_upd u = None"
      unfolding toolNode_def by (rule toolNodeWith_no_counter)
    then show ?thesis by (simp add: merge_def)
  qed
  moreover have "toolNode st = Inr \<lparr>messages_upd = Some [], llmCalls_upd = None\<rparr>"
    if "messages st = [] \<or> (\<forall>ai. last (messages st) \<noteq> AIMessage ai)"
    using that by (auto simp: toolNode_def toolNodeWith_def at_last_def split: message.splits)
  ultimately show ?thesis by blast
qed

theorem toolNode_frame_witness:
  "toolNode (asking [call_add_3_4]) =
     Inr \<lparr>messages_upd = Some [ToolMessage \<lparr>content = Num 7, tool_call_id = ''call_1''\<rparr>],
          llmCalls_upd = None\<rparr>
   \<and> llmCalls (merge (asking [call_add_3_4])
        \<lparr>messages_upd = Some [ToolMessage \<lparr>content = Num 7, tool_call_id = ''call_1''\<rparr>],
         llmCalls_upd = None\<rparr>) = llmCalls (asking [call_add_3_4])
   \<and> messages \<lparr>messages = [], llmCalls = Num 5\<rparr> = []
   \<and> toolNode \<lparr>messages = [], llmCalls = Num 5\<rparr> = Inr \<lparr>messages_upd = Some [], llmCalls_upd = None\<rparr>"
proof -
  have h1: "toolNode (asking [call_add_3_4]) =
     Inr \<lparr>messages_upd = Some [ToolMessage \<lparr>content = Num 7, tool_call_id = ''call_1''\<rparr>],
          llmCalls_upd = None\<rparr>"
    by (simp add: eval_tools)
  have h2: "messages \<lparr>messages = [], llmCalls = Num 5\<rparr> = []"
    by simp
  from h2 have h2': "messages \<lparr>messages = [], llmCalls = Num 5\<rparr> = []
      \<or> (\<forall>ai. last (messages \<lparr>messages = [], llmCalls = Num 5\<rparr>) \<noteq> AIMessage ai)" ..
  note a = toolNode_frame [THEN conjunct1, THEN mp, OF h1, THEN conjunct2]
  note b = toolNode_frame [THEN conjunct2, THEN mp, OF h2']
  show ?thesis
    by (intro conjI) (rule h1 a h2 b)+
qed

subsection \<open>The compiled agent\<close>

lemma agent_compiled:
  "agent modelWithTools =
     Inr \<lparr>nodes = [(''toolNode'', \<lambda>st b. (toolNode st, b)), (''llmCall'', llmCall modelWithTools)],
          entry = Some ''llmCall'',
          fixedEdges = [(''toolNode'', ''llmCall'')],
          conditionalEdges = [(''llmCall'', shouldContinue, [''toolNode'', END])]\<rparr>"
  by (simp add: agent_def compile_def addEdge_def addConditionalEdges_def addNode_def
      StateGraph_def START_def END_def declared_def has_fixed_def has_conditional_def)

lemma destination_llmCall:
  assumes "entry g = Some ''llmCall''"
    and "fixedEdges g = [(''toolNode'', ''llmCall'')]"
    and "conditionalEdges g = [(''llmCall'', shouldContinue, [''toolNode'', END])]"
  shows "destination g ''llmCall'' st = Inr (shouldContinue st)"
    and "destination g ''toolNode'' st = Inr ''llmCall''"
  using assms shouldContinue_values [of st]
  by (auto simp: destination_def)

lemma run_toolNode_step:
  fixes g :: "'b graph"
  assumes n: "nodes g = [(''toolNode'', tn), (''llmCall'', lc)]"
    and e: "entry g = Some ''llmCall''"
    and f: "fixedEdges g = [(''toolNode'', ''llmCall'')]"
    and c: "conditionalEdges g = [(''llmCall'', shouldContinue, [''toolNode'', END])]"
  shows "run (Suc fuel) g ''toolNode'' st b =
     (case tn st b of
        (Inl err, b') \<Rightarrow> ([''toolNode''], Aborted err)
      | (Inr u, b') \<Rightarrow>
          (case run fuel g ''llmCall'' (merge st u) b' of
             (trace, out) \<Rightarrow> (''toolNode'' # trace, out)))"
proof -
  have d: "destination g ''toolNode'' st' = Inr ''llmCall''" for st'
    by (rule destination_llmCall(2) [OF e f c])
  have m: "map_of (nodes g) ''toolNode'' = Some tn"
    by (simp add: n)
  show ?thesis
    by (simp add: m d END_def split: prod.splits sum.splits)
qed

lemma run_llmCall_step:
  fixes g :: "'b graph"
  assumes n: "nodes g = [(''toolNode'', tn), (''llmCall'', lc)]"
    and e: "entry g = Some ''llmCall''"
    and f: "fixedEdges g = [(''toolNode'', ''llmCall'')]"
    and c: "conditionalEdges g = [(''llmCall'', shouldContinue, [''toolNode'', END])]"
  shows "run (Suc fuel) g ''llmCall'' st b =
     (case lc st b of
        (Inl err, b') \<Rightarrow> ([''llmCall''], Aborted err)
      | (Inr u, b') \<Rightarrow>
          if shouldContinue (merge st u) = END then ([''llmCall''], Terminated (merge st u))
          else (case run fuel g ''toolNode'' (merge st u) b' of
                  (trace, out) \<Rightarrow> (''llmCall'' # trace, out)))"
proof -
  have d: "destination g ''llmCall'' st' = Inr (shouldContinue st')" for st'
    by (rule destination_llmCall(1) [OF e f c])
  have m: "map_of (nodes g) ''llmCall'' = Some lc"
    by (simp add: n)
  have t: "shouldContinue st' = ''toolNode''" if "shouldContinue st' \<noteq> END" for st'
    using that shouldContinue_values [of st'] by simp
  show ?thesis
    using END_not_toolNode by (auto simp: m d t split: prod.splits sum.splits)
qed

lemma reasoning_last_first: "reasoning_last tr \<Longrightarrow> reasoning_first tr"
  by (induction tr rule: reasoning_last.induct) simp_all

lemma reasoning_last_form:
  "reasoning_last tr \<Longrightarrow> \<exists>k. tr = ''llmCall'' # concat (replicate k [''toolNode'', ''llmCall''])"
proof (induction tr rule: reasoning_last.induct)
  case 1
  then show ?case by simp
next
  case (2 n)
  then have "[n] = ''llmCall'' # concat (replicate 0 [''toolNode'', ''llmCall''])" by simp
  then show ?case by (rule exI [of _ 0])
next
  case (3 n m rest)
  from "3.prems" have nm: "n = ''llmCall''" "m = ''toolNode''" and r: "reasoning_last rest"
    by simp_all
  from "3.IH" [OF r] obtain k where "rest = ''llmCall'' # concat (replicate k [''toolNode'', ''llmCall''])" ..
  with nm have "n # m # rest = ''llmCall'' # concat (replicate (Suc k) [''toolNode'', ''llmCall''])"
    by simp
  then show ?case by (rule exI [of _ "Suc k"])
qed

lemma reasoning_first_form:
  "reasoning_first tr \<Longrightarrow> \<exists>k. prefix tr (''llmCall'' # concat (replicate k [''toolNode'', ''llmCall'']))"
proof (induction tr rule: reasoning_first.induct)
  case 1
  then have "prefix [] (''llmCall'' # concat (replicate 0 [''toolNode'', ''llmCall'']))" by simp
  then show ?case by (rule exI [of _ 0])
next
  case (2 n)
  then have "prefix [n] (''llmCall'' # concat (replicate 0 [''toolNode'', ''llmCall'']))" by simp
  then show ?case by (rule exI [of _ 0])
next
  case (3 n m rest)
  from "3.prems" have nm: "n = ''llmCall''" "m = ''toolNode''" and r: "reasoning_first rest"
    by simp_all
  from "3.IH" [OF r] obtain k where "prefix rest (''llmCall'' # concat (replicate k [''toolNode'', ''llmCall'']))" ..
  with nm have "prefix (n # m # rest) (''llmCall'' # concat (replicate (Suc k) [''toolNode'', ''llmCall'']))"
    by simp
  then show ?case by (rule exI [of _ "Suc k"])
qed

lemma reasoning_first_head: "reasoning_first (x # xs) \<Longrightarrow> x = ''llmCall''"
  by (cases xs) simp_all

lemma reasoning_first_no_repeat:
  "reasoning_first tr \<Longrightarrow> Suc i < length tr \<Longrightarrow>
   \<not> (tr ! i = ''toolNode'' \<and> tr ! Suc i = ''toolNode'')"
proof (induction tr arbitrary: i rule: reasoning_first.induct)
  case 1
  then show ?case by simp
next
  case (2 n)
  then show ?case by simp
next
  case (3 n m rest)
  show ?case
  proof (cases i)
    case 0
    with "3.prems" show ?thesis by simp
  next
    case (Suc j)
    from "3.prems" have r: "reasoning_first rest" by simp
    show ?thesis
    proof (cases j)
      case 0
      from "3.prems" Suc 0 obtain x xs where rest: "rest = x # xs" by (cases rest) simp_all
      with r have "x = ''llmCall''" by (simp add: reasoning_first_head)
      with rest Suc 0 show ?thesis by simp
    next
      case (Suc l)
      with \<open>i = Suc j\<close> "3.prems" have "Suc l < length rest" by simp
      from "3.IH" [OF r this] Suc \<open>i = Suc j\<close> show ?thesis by simp
    qed
  qed
qed

lemma run_agent_trace:
  fixes g :: "'b graph"
  assumes n: "nodes g = [(''toolNode'', tn), (''llmCall'', lc)]"
    and e: "entry g = Some ''llmCall''"
    and f: "fixedEdges g = [(''toolNode'', ''llmCall'')]"
    and c: "conditionalEdges g = [(''llmCall'', shouldContinue, [''toolNode'', END])]"
  shows "(run fuel g ''llmCall'' st b = (tr, out) \<longrightarrow>
            reasoning_first tr \<and> (0 < fuel \<longrightarrow> tr \<noteq> [])
            \<and> ((\<exists>final. out = Terminated final) \<longrightarrow> reasoning_last tr))
       \<and> (run fuel g ''toolNode'' st b = (tr, out) \<longrightarrow>
            reasoning_first (''llmCall'' # tr)
            \<and> ((\<exists>final. out = Terminated final) \<longrightarrow> reasoning_last (''llmCall'' # tr)))"
proof (induction fuel arbitrary: st b tr out)
  case 0
  then show ?case by auto
next
  case (Suc fuel)
  note sl = run_llmCall_step [OF n e f c]
  note stp = run_toolNode_step [OF n e f c]
  have llm: "reasoning_first tr \<and> tr \<noteq> [] \<and> ((\<exists>final. out = Terminated final) \<longrightarrow> reasoning_last tr)"
    if r: "run (Suc fuel) g ''llmCall'' st b = (tr, out)"
  proof (cases "lc st b")
    case (Pair res b')
    show ?thesis
    proof (cases res)
      case (Inl err)
      with r Pair show ?thesis unfolding sl by auto
    next
      case (Inr u)
      show ?thesis
      proof (cases "shouldContinue (merge st u) = END")
        case True
        with r Pair Inr show ?thesis unfolding sl by auto
      next
        case False
        obtain tr' out' where r': "run fuel g ''toolNode'' (merge st u) b' = (tr', out')"
          by (cases "run fuel g ''toolNode'' (merge st u) b'")
        with r Pair Inr False have "tr = ''llmCall'' # tr'" "out = out'"
          unfolding sl by auto
        with Suc.IH [of "merge st u" b' tr' out'] r' show ?thesis by simp
      qed
    qed
  qed
  have tool: "reasoning_first (''llmCall'' # tr)
      \<and> ((\<exists>final. out = Terminated final) \<longrightarrow> reasoning_last (''llmCall'' # tr))"
    if r: "run (Suc fuel) g ''toolNode'' st b = (tr, out)"
  proof (cases "tn st b")
    case (Pair res b')
    show ?thesis
    proof (cases res)
      case (Inl err)
      with r Pair show ?thesis unfolding stp by auto
    next
      case (Inr u)
      obtain tr' out' where r': "run fuel g ''llmCall'' (merge st u) b' = (tr', out')"
        by (cases "run fuel g ''llmCall'' (merge st u) b'")
      with r Pair Inr have "tr = ''toolNode'' # tr'" "out = out'"
        unfolding stp by auto
      with Suc.IH [of "merge st u" b' tr' out'] r' show ?thesis by simp
    qed
  qed
  from llm tool show ?case by simp
qed

subsection \<open>Runs of the agent\<close>

lemmas eval_agent =
  agent_invoke_def invoke_def destination_def llmCall_def scripted_def merge_def
  MessagesValue_def llmCalls_reducer_def shouldContinue_def at_last_def END_def
  toolNode_def toolNodeWith_def get_property_def toolsByName_def
  add_def multiply_def divide_def tool_def schema_a_b_def eval_number

lemma three_fuel: "3 + k = Suc (Suc (Suc k))"
  by simp

lemma agent_example_run:
  "agent_invoke scripted [HumanMessage ''Add 3 and 4'']
     [\<lparr>ai_content = [], tool_calls = Some [call_add_3_4]\<rparr>, \<lparr>ai_content = ''7'', tool_calls = None\<rparr>]
     (Suc (Suc (Suc 0))) =
   ([''llmCall'', ''toolNode'', ''llmCall''],
    Terminated
      \<lparr>messages =
         [HumanMessage ''Add 3 and 4'',
          AIMessage \<lparr>ai_content = [], tool_calls = Some [call_add_3_4]\<rparr>,
          ToolMessage \<lparr>content = Num 7, tool_call_id = ''call_1''\<rparr>,
          AIMessage \<lparr>ai_content = ''7'', tool_calls = None\<rparr>],
       llmCalls = Num 2\<rparr>)"
  by (simp add: agent_compiled eval_agent call_add_3_4_def)

text \<open>
  C4. From the log \<^verbatim>\<open>[Human("Add 3 and 4")]\<close>, with a backend that first asks for
  \<^verbatim>\<open>add\<close> with \<^verbatim>\<open>{a: 3, b: 4}\<close> (any text, any call id) and then answers \<^verbatim>\<open>"7"\<close>
  without tool calls (an empty or an absent list), the run of the compiled graph
  terminates for every fuel of at least three steps, after the nodes \<^verbatim>\<open>llmCall\<close>,
  \<^verbatim>\<open>toolNode\<close>, \<^verbatim>\<open>llmCall\<close>; the final log is the Human message, the Assistant
  message with the call, the tool message with content 7 and the Assistant message
  \<^verbatim>\<open>"7"\<close>, and the counter is 2.
\<close>

theorem agent_add_3_and_4:
  "agent_invoke scripted [HumanMessage ''Add 3 and 4'']
      [\<lparr>ai_content = txt, tool_calls = Some [\<lparr>tc_name = ''add'', tc_args = [''a'' \<mapsto> JNumber 3, ''b'' \<mapsto> JNumber 4], tc_id = cid\<rparr>]\<rparr>,
       \<lparr>ai_content = ''7'', tool_calls = Some []\<rparr>]
      (3 + k) =
    ([''llmCall'', ''toolNode'', ''llmCall''],
     Terminated
       \<lparr>messages =
          [HumanMessage ''Add 3 and 4'',
           AIMessage \<lparr>ai_content = txt, tool_calls = Some [\<lparr>tc_name = ''add'', tc_args = [''a'' \<mapsto> JNumber 3, ''b'' \<mapsto> JNumber 4], tc_id = cid\<rparr>]\<rparr>,
           ToolMessage \<lparr>content = Num 7, tool_call_id = cid\<rparr>,
           AIMessage \<lparr>ai_content = ''7'', tool_calls = Some []\<rparr>],
        llmCalls = Num 2\<rparr>)
   \<and> agent_invoke scripted [HumanMessage ''Add 3 and 4'']
      [\<lparr>ai_content = txt, tool_calls = Some [\<lparr>tc_name = ''add'', tc_args = [''a'' \<mapsto> JNumber 3, ''b'' \<mapsto> JNumber 4], tc_id = cid\<rparr>]\<rparr>,
       \<lparr>ai_content = ''7'', tool_calls = None\<rparr>]
      (3 + k) =
    ([''llmCall'', ''toolNode'', ''llmCall''],
     Terminated
       \<lparr>messages =
          [HumanMessage ''Add 3 and 4'',
           AIMessage \<lparr>ai_content = txt, tool_calls = Some [\<lparr>tc_name = ''add'', tc_args = [''a'' \<mapsto> JNumber 3, ''b'' \<mapsto> JNumber 4], tc_id = cid\<rparr>]\<rparr>,
           ToolMessage \<lparr>content = Num 7, tool_call_id = cid\<rparr>,
           AIMessage \<lparr>ai_content = ''7'', tool_calls = None\<rparr>],
        llmCalls = Num 2\<rparr>)"
  unfolding three_fuel
  by (simp add: agent_compiled eval_agent)

text \<open>
  C10. The agent compiles to a graph whose entry is \<^verbatim>\<open>llmCall\<close>, where the only
  destinations after \<^verbatim>\<open>llmCall\<close> are \<^verbatim>\<open>toolNode\<close> and the terminal marker, and where
  \<^verbatim>\<open>toolNode\<close> is always followed by \<^verbatim>\<open>llmCall\<close>. In every run, for any backend, input
  and fuel: the first node started is \<^verbatim>\<open>llmCall\<close>; the sequence of started nodes is an
  initial segment of \<^verbatim>\<open>llmCall (toolNode llmCall)*\<close>; \<^verbatim>\<open>toolNode\<close> is never started
  twice in a row; and a run that reaches the terminal marker has executed exactly a
  sequence \<^verbatim>\<open>llmCall (toolNode llmCall)*\<close>, whose last node is \<^verbatim>\<open>llmCall\<close>.
\<close>

theorem agent_wiring:
  assumes "agent_invoke modelWithTools input b fuel = (tr, out)"
  shows "(\<exists>g. agent modelWithTools = Inr g
            \<and> entry g = Some ''llmCall''
            \<and> fixedEdges g = [(''toolNode'', ''llmCall'')]
            \<and> conditionalEdges g = [(''llmCall'', shouldContinue, [''toolNode'', END])]
            \<and> (\<forall>st. destination g ''llmCall'' st = Inr ''toolNode''
                     \<or> destination g ''llmCall'' st = Inr END)
            \<and> (\<forall>st. destination g ''toolNode'' st = Inr ''llmCall''))
       \<and> (0 < fuel \<longrightarrow> tr \<noteq> [] \<and> hd tr = ''llmCall'')
       \<and> (\<exists>k. prefix tr (''llmCall'' # concat (replicate k [''toolNode'', ''llmCall''])))
       \<and> (\<forall>i. Suc i < length tr \<longrightarrow> \<not> (tr ! i = ''toolNode'' \<and> tr ! Suc i = ''toolNode''))
       \<and> ((\<exists>final. out = Terminated final) \<longrightarrow>
             (\<exists>k. tr = ''llmCall'' # concat (replicate k [''toolNode'', ''llmCall'']))
             \<and> last tr = ''llmCall'')"
proof -
  let ?g = "\<lparr>nodes = [(''toolNode'', \<lambda>st b. (toolNode st, b)), (''llmCall'', llmCall modelWithTools)],
          entry = Some ''llmCall'',
          fixedEdges = [(''toolNode'', ''llmCall'')],
          conditionalEdges = [(''llmCall'', shouldContinue, [''toolNode'', END])]\<rparr>"
  have a: "agent modelWithTools = Inr ?g"
    by (rule agent_compiled)
  have n: "nodes ?g = [(''toolNode'', \<lambda>st b. (toolNode st, b)), (''llmCall'', llmCall modelWithTools)]"
    and e: "entry ?g = Some ''llmCall''"
    and f: "fixedEdges ?g = [(''toolNode'', ''llmCall'')]"
    and c: "conditionalEdges ?g = [(''llmCall'', shouldContinue, [''toolNode'', END])]"
    by simp_all
  have dl: "destination ?g ''llmCall'' st = Inr ''toolNode'' \<or> destination ?g ''llmCall'' st = Inr END"
    for st
    using shouldContinue_values [of st]
    by (simp add: destination_llmCall(1) [OF e f c])
  have dt: "destination ?g ''toolNode'' st = Inr ''llmCall''" for st
    by (rule destination_llmCall(2) [OF e f c])
  from a e f c dl dt have wiring: "\<exists>g. agent modelWithTools = Inr g
            \<and> entry g = Some ''llmCall''
            \<and> fixedEdges g = [(''toolNode'', ''llmCall'')]
            \<and> conditionalEdges g = [(''llmCall'', shouldContinue, [''toolNode'', END])]
            \<and> (\<forall>st. destination g ''llmCall'' st = Inr ''toolNode''
                     \<or> destination g ''llmCall'' st = Inr END)
            \<and> (\<forall>st. destination g ''toolNode'' st = Inr ''llmCall'')"
    by (intro exI [of _ ?g] conjI allI)
  from assms have r: "run fuel ?g ''llmCall'' \<lparr>messages = input, llmCalls = Num 0\<rparr> b = (tr, out)"
    by (simp add: agent_invoke_def a invoke_def)
  from run_agent_trace [OF n e f c, of fuel "\<lparr>messages = input, llmCalls = Num 0\<rparr>" b tr out] r
  have first: "reasoning_first tr" and nonempty: "0 < fuel \<longrightarrow> tr \<noteq> []"
    and final: "(\<exists>final. out = Terminated final) \<longrightarrow> reasoning_last tr"
    by simp_all
  have start: "0 < fuel \<longrightarrow> tr \<noteq> [] \<and> hd tr = ''llmCall''"
    using first nonempty by (cases tr) (auto dest: reasoning_first_head)
  have norep: "\<forall>i. Suc i < length tr \<longrightarrow> \<not> (tr ! i = ''toolNode'' \<and> tr ! Suc i = ''toolNode'')"
    using reasoning_first_no_repeat [OF first] by simp
  have fin: "(\<exists>final. out = Terminated final) \<longrightarrow>
             (\<exists>k. tr = ''llmCall'' # concat (replicate k [''toolNode'', ''llmCall'']))
             \<and> last tr = ''llmCall''"
  proof
    assume "\<exists>final. out = Terminated final"
    with final have l: "reasoning_last tr" by simp
    have "last tr = ''llmCall''"
      using l by (induction tr rule: reasoning_last.induct) auto
    with reasoning_last_form [OF l] show "(\<exists>k. tr = ''llmCall'' # concat (replicate k [''toolNode'', ''llmCall'']))
             \<and> last tr = ''llmCall''"
      by (rule_tac conjI)
  qed
  show ?thesis
    by (intro conjI) (rule wiring start reasoning_first_form [OF first] norep fin)+
qed

theorem agent_wiring_witness:
  "agent_invoke scripted [HumanMessage ''Add 3 and 4'']
     [\<lparr>ai_content = [], tool_calls = Some [call_add_3_4]\<rparr>, \<lparr>ai_content = ''7'', tool_calls = None\<rparr>]
     (Suc (Suc (Suc 0))) =
   ([''llmCall'', ''toolNode'', ''llmCall''],
    Terminated
      \<lparr>messages =
         [HumanMessage ''Add 3 and 4'',
          AIMessage \<lparr>ai_content = [], tool_calls = Some [call_add_3_4]\<rparr>,
          ToolMessage \<lparr>content = Num 7, tool_call_id = ''call_1''\<rparr>,
          AIMessage \<lparr>ai_content = ''7'', tool_calls = None\<rparr>],
       llmCalls = Num 2\<rparr>)
   \<and> (\<exists>k. [''llmCall'', ''toolNode'', ''llmCall''] =
          ''llmCall'' # concat (replicate k [''toolNode'', ''llmCall'']))
   \<and> last [''llmCall'', ''toolNode'', ''llmCall''] = ''llmCall''"
proof -
  note w = agent_wiring [OF agent_example_run]
  from w have "(\<exists>final. Terminated
      \<lparr>messages =
         [HumanMessage ''Add 3 and 4'',
          AIMessage \<lparr>ai_content = [], tool_calls = Some [call_add_3_4]\<rparr>,
          ToolMessage \<lparr>content = Num 7, tool_call_id = ''call_1''\<rparr>,
          AIMessage \<lparr>ai_content = ''7'', tool_calls = None\<rparr>],
       llmCalls = Num 2\<rparr> = Terminated final) \<longrightarrow>
     (\<exists>k. [''llmCall'', ''toolNode'', ''llmCall''] =
          ''llmCall'' # concat (replicate k [''toolNode'', ''llmCall'']))
     \<and> last [''llmCall'', ''toolNode'', ''llmCall''] = ''llmCall''"
    by (elim conjE)
  then have "(\<exists>k. [''llmCall'', ''toolNode'', ''llmCall''] =
          ''llmCall'' # concat (replicate k [''toolNode'', ''llmCall'']))
     \<and> last [''llmCall'', ''toolNode'', ''llmCall''] = ''llmCall''"
    by simp
  with agent_example_run show ?thesis
    by (rule_tac conjI)
qed

end
